theory Spec2Isabelle
  imports Main "HOL-Library.AList"
begin

section \<open>Values\<close>

text \<open>
  The program handles untyped JavaScript objects: the package manifest, the registry index
  and the documents returned by the registry are all object literals or parsed JSON.
  An object is the list of its own properties, with distinct keys, in the order in which
  they were added (an engine enumerates the keys that are array indices first; nothing
  that is proved here depends on the order).
\<close>

datatype json =
    JNull
  | JBool bool
  | JNum int
  | JStr string
  | JArr "json list"
  | JObj "(string \<times> json) list"

text \<open>A rejected promise or a thrown exception carries one of these.\<close>

datatype error = TypeError | Rejected string

text \<open>Decimal rendering of an array index.\<close>

fun decimal :: "nat \<Rightarrow> string" where
  "decimal n = (if n < 10 then [''0123456789'' ! n]
                else decimal (n div 10) @ [''0123456789'' ! (n mod 10)])"

declare decimal.simps [simp del]

subsection \<open>Numbers\<close>

text \<open>
  A JavaScript number is an IEEE double. The program computes with integers only: a number
  is held as the exact integer value of the expression that computes it, and the double
  it denotes is the rounding of that value to the nearest double, ties to the even
  significand. The one arithmetic expression of the program is \<open>last + 1\<close> on a double
  \<open>last\<close>, whose value is rendered at once by a template literal, so the rounding of the
  sum is taken where the number is rendered.

  \<open>digits\<close> is the decimal numeral of a non-negative integer and \<open>bit_length\<close> the length
  of its binary numeral. \<open>round_double\<close> rounds a non-negative integer: up to \<open>2^53\<close> every
  integer is a double; above, the doubles are the multiples of \<open>u = 2^(bit_length a - 53)\<close>.
\<close>

function digits :: "int \<Rightarrow> string" where
  "digits n = (if n < 10 then [''0123456789'' ! nat n]
               else digits (n div 10) @ [''0123456789'' ! nat (n mod 10)])"
  by pat_completeness auto

termination digits
  by (relation "measure nat") auto

declare digits.simps [simp del]

function bit_length :: "int \<Rightarrow> nat" where
  "bit_length n = (if n \<le> 0 then 0 else Suc (bit_length (n div 2)))"
  by pat_completeness auto

termination bit_length
  by (relation "measure nat") auto

declare bit_length.simps [simp del]

definition round_double :: "int \<Rightarrow> int" where
  "round_double a =
     (if a \<le> 2 ^ 53 then a
      else let u = 2 ^ (bit_length a - 53); q = a div u; r = a mod u
           in (if 2 * r < u \<or> (2 * r = u \<and> even q) then q else q + 1) * u)"

text \<open>
  The rendering of a double (\<open>Number::toString\<close>): with \<open>k\<close> the least number of
  significant digits such that some \<open>k\<close>-digit \<open>s\<close> has \<open>s * 10^(n - k)\<close> round to the
  number, and \<open>s\<close> the one whose value is closest to it (the even one of two equally
  close), the result is the digits of \<open>s\<close> followed by \<open>n - k\<close> zeros when \<open>n \<le> 21\<close>,
  and the exponent form otherwise. \<open>candidates a k\<close> are the pairs \<open>(n, s)\<close> for \<open>k\<close> digits:
  the multiples of \<open>10^(n - k)\<close> next to \<open>a\<close> on either side, and the power of ten above
  \<open>a\<close>. Up to \<open>2^53\<close> all integers are doubles, so the digits are those of the number
  itself. A sum that rounds to \<open>2^1024\<close> or more has overflowed.
\<close>

definition candidates :: "int \<Rightarrow> nat \<Rightarrow> (nat \<times> int) list" where
  "candidates a k =
     (let d = length (digits a); p = 10 ^ (d - k); s0 = a div p
      in filter (\<lambda>(n, s). 10 ^ (k - 1) \<le> s \<and> s < 10 ^ k \<and> round_double (s * p) = a)
           [(d, s0), (d, s0 + 1)]
         @ (if k = 1 \<and> round_double (10 ^ d) = a then [(d + 1, 1)] else []))"

definition distance :: "int \<Rightarrow> nat \<Rightarrow> nat \<times> int \<Rightarrow> int" where
  "distance a k c = \<bar>snd c * 10 ^ (fst c - k) - a\<bar>"

fun closest :: "int \<Rightarrow> nat \<Rightarrow> (nat \<times> int) list \<Rightarrow> (nat \<times> int) option" where
  "closest a k [] = None"
| "closest a k (c # cs) =
     (case closest a k cs of
        None \<Rightarrow> Some c
      | Some c' \<Rightarrow>
          if distance a k c < distance a k c' \<or> (distance a k c = distance a k c' \<and> even (snd c))
          then Some c else Some c')"

fun shortest :: "int \<Rightarrow> nat \<Rightarrow> nat \<Rightarrow> nat \<times> nat \<times> int" where
  "shortest a k 0 = (length (digits a), length (digits a), a)"
| "shortest a k (Suc fuel) =
     (case closest a k (candidates a k) of
        Some (n, s) \<Rightarrow> (n, k, s)
      | None \<Rightarrow> shortest a (Suc k) fuel)"

definition render_large :: "int \<Rightarrow> string" where
  "render_large a =
     (case shortest a 1 (length (digits a)) of (n, k, s) \<Rightarrow>
        if n \<le> 21 then digits s @ replicate (n - k) (CHR ''0'')
        else (if k = 1 then digits s else hd (digits s) # CHR ''.'' # tl (digits s))
             @ ''e+'' @ digits (int n - 1))"

text \<open>\<open>`${patch}`\<close>: the rendering of the double that the integer \<open>i\<close> rounds to.\<close>

definition number_to_string :: "int \<Rightarrow> string" where
  "number_to_string i =
     (let a = round_double \<bar>i\<bar>
      in (if i < 0 then ''-'' else []) @
         (if a \<le> 2 ^ 53 then digits a
          else if 2 ^ 1024 \<le> a then ''Infinity''
          else render_large a))"

text \<open>
  \<open>for (const key in obj)\<close>: the enumerable properties of a value, each with the value that
  \<open>obj[key]\<close> reads. \<open>None\<close> is \<open>undefined\<close>; \<open>undefined\<close>, \<open>null\<close>, numbers and booleans
  have no enumerable property, a string and an array enumerate their indices.
\<close>

fun for_in :: "json option \<Rightarrow> (string \<times> json) list" where
  "for_in None = []"
| "for_in (Some JNull) = []"
| "for_in (Some (JBool b)) = []"
| "for_in (Some (JNum n)) = []"
| "for_in (Some (JStr s)) = map (\<lambda>i. (decimal i, JStr [s ! i])) [0..<length s]"
| "for_in (Some (JArr xs)) = map (\<lambda>i. (decimal i, xs ! i)) [0..<length xs]"
| "for_in (Some (JObj ps)) = ps"

text \<open>
  \<open>out[key] = v\<close> on an object created by \<open>{}\<close>: it overwrites an own property that is
  there and appends one that is not. The key \<open>__proto__\<close> is the accessor that the object
  inherits from \<open>Object.prototype\<close>: assigning to it changes the prototype of the object
  (or does nothing when the value is not an object) and adds no own property. No other
  inherited property has a setter.
\<close>

definition assign :: "string \<Rightarrow> json \<Rightarrow> (string \<times> json) list \<Rightarrow> (string \<times> json) list" where
  "assign key v out = (if key = ''__proto__'' then out else AList.update key v out)"

text \<open>
  \<open>pick(obj, keys)\<close>: the loop runs over the properties of \<open>obj\<close> and copies those whose key
  is included in \<open>keys\<close>.
\<close>

definition pick :: "json option \<Rightarrow> string list \<Rightarrow> (string \<times> json) list" where
  "pick obj keys =
     fold (\<lambda>(key, v) out. if key \<in> set keys then assign key v out else out)
          (for_in obj) []"

section \<open>The bounded concurrent mapper\<close>

text \<open>
  An asynchronous transform runs in two atomic segments on the single execution context:
  \<open>start\<close> is the part up to its suspension (the call itself), \<open>settle\<close> is the part that
  runs when the awaited operation completes; it fulfils with an output or rejects. Both may
  change the caller's state \<open>'s\<close>.
\<close>

record ('a, 'b, 's) transform =
  start :: "'a \<Rightarrow> 's \<Rightarrow> 's"
  settle :: "'a \<Rightarrow> 's \<Rightarrow> (error + 'b) \<times> 's"

text \<open>
  The state of one mapper call: the shared cursor, the indices whose transform is in flight
  (one per active worker), the output slots (\<open>None\<close> is a slot not yet stored), the log of
  indices the transform was invoked on, the rejection of the overall operation if there is
  one, and the caller's state.
\<close>

record ('b, 's) pool =
  cursor :: nat
  pending :: "nat list"
  results :: "'b option list"
  invoked :: "nat list"
  rejected :: "error option"
  shared :: 's

text \<open>
  Modelled from the spec: \<open>nAtATime\<close> of \<open>util/util\<close>, which is not among the sources.
  Section 4.1: a shared cursor over the input starts at 0; exactly \<open>min(L, M)\<close> workers are
  launched; each worker repeatedly claims the next unclaimed index (fetch-and-increment),
  stops if no index remains, otherwise invokes the transform on that item, awaits its
  completion and stores the result at that index before claiming the next index; the
  operation completes when all launched workers have finished; a failing transform fails the
  overall operation. The order in which in-flight transforms complete is not constrained:
  it is the parameter \<open>sched\<close>, whose \<open>n\<close>-th value selects among the transforms in flight
  at the \<open>n\<close>-th completion. Progress rendering is cosmetic and is left out.
\<close>

definition claim :: "('a, 'b, 's) transform \<Rightarrow> 'a list \<Rightarrow> ('b, 's) pool \<Rightarrow> ('b, 's) pool" where
  "claim tr inputs p =
     (if cursor p < length inputs then
        p\<lparr>cursor := Suc (cursor p),
          pending := pending p @ [cursor p],
          invoked := invoked p @ [cursor p],
          shared := start tr (inputs ! cursor p) (shared p)\<rparr>
      else p)"

definition launch :: "nat \<Rightarrow> 'a list \<Rightarrow> ('a, 'b, 's) transform \<Rightarrow> 's \<Rightarrow> ('b, 's) pool" where
  "launch L inputs tr s =
     (claim tr inputs ^^ min L (length inputs))
       \<lparr>cursor = 0, pending = [], results = replicate (length inputs) None,
        invoked = [], rejected = None, shared = s\<rparr>"

definition complete :: "('a, 'b, 's) transform \<Rightarrow> 'a list \<Rightarrow> nat \<Rightarrow> ('b, 's) pool \<Rightarrow> ('b, 's) pool" where
  "complete tr inputs c p =
     (let k = c mod length (pending p);
          i = pending p ! k;
          others = remove1 i (pending p)
      in case settle tr (inputs ! i) (shared p) of
           (Inl e, s') \<Rightarrow> p\<lparr>pending := others, rejected := Some e, shared := s'\<rparr>
         | (Inr y, s') \<Rightarrow>
             claim tr inputs (p\<lparr>pending := others, results := (results p)[i := Some y], shared := s'\<rparr>))"

text \<open>
  The run of the event loop from a pool state: the list of the states it goes through, one
  per completion, until no transform is in flight or the operation has rejected. A
  completion is taken only while a transform is in flight, so \<open>complete\<close> always reads an
  index that is there.
\<close>

function run :: "('a, 'b, 's) transform \<Rightarrow> 'a list \<Rightarrow> (nat \<Rightarrow> nat) \<Rightarrow> nat \<Rightarrow> ('b, 's) pool \<Rightarrow> ('b, 's) pool list" where
  "run tr inputs sched n p =
     p # (if pending p = [] \<or> rejected p \<noteq> None then []
          else run tr inputs sched (Suc n) (complete tr inputs (sched n) p))"
  by pat_completeness auto

termination run
  by (relation "measure (\<lambda>(tr, inputs, sched, n, p). length inputs - cursor p + length (pending p))")
     (auto simp: complete_def claim_def Let_def length_remove1 split: prod.splits sum.splits)

declare run.simps [simp del]

definition nAtATime ::
  "nat \<Rightarrow> 'a list \<Rightarrow> ('a, 'b, 's) transform \<Rightarrow> (nat \<Rightarrow> nat) \<Rightarrow> 's \<Rightarrow> (error + 'b option list) \<times> 's" where
  "nAtATime L inputs tr sched s =
     (let p = last (run tr inputs sched 0 (launch L inputs tr s))
      in (case rejected p of Some e \<Rightarrow> Inl e | None \<Rightarrow> Inr (results p), shared p))"

text \<open>
  The invariant of a mapper call with limit \<open>L\<close>: the cursor stays within the input, the
  indices in flight are distinct and below the cursor, the transform has been invoked on
  exactly the indices below the cursor, at most \<open>L\<close> are in flight, all \<open>L\<close> workers are busy
  while items remain, an index that is claimed and no longer in flight has its output
  stored, and each stored output and the rejection come from the transform.
\<close>

definition pool_inv :: "nat \<Rightarrow> 'a list \<Rightarrow> ('a, 'b, 's) transform \<Rightarrow> ('b, 's) pool \<Rightarrow> bool" where
  "pool_inv L inputs tr p \<longleftrightarrow>
     cursor p \<le> length inputs \<and>
     length (results p) = length inputs \<and>
     distinct (pending p) \<and>
     set (pending p) \<subseteq> {..<cursor p} \<and>
     invoked p = [0..<cursor p] \<and>
     length (pending p) \<le> L \<and>
     (rejected p = None \<longrightarrow> cursor p < length inputs \<longrightarrow> length (pending p) = L) \<and>
     (rejected p = None \<longrightarrow> (\<forall>i<cursor p. i \<notin> set (pending p) \<longrightarrow> results p ! i \<noteq> None)) \<and>
     (\<forall>i<length inputs. \<forall>y. results p ! i = Some y \<longrightarrow>
         (\<exists>s. fst (settle tr (inputs ! i) s) = Inr y)) \<and>
     (\<forall>e. rejected p = Some e \<longrightarrow>
         (\<exists>i<length inputs. \<exists>s. fst (settle tr (inputs ! i) s) = Inl e))"

text \<open>A transform without effects, for running the mapper on concrete inputs.\<close>

definition successor :: "(nat, nat, unit) transform" where
  "successor = \<lparr>start = (\<lambda>x s. s), settle = (\<lambda>x s. (Inr (Suc x), s))\<rparr>"

section \<open>The registry publisher\<close>

record TypingsData =
  name :: string
  fullEscapedNpmName :: string

text \<open>
  What the program does to the outside is the sequence of its calls to the collaborators.
  A registry lookup is asynchronous and overlaps with others, so it has two events: the
  request (with its \<open>retries\<close> option) and the delivery of its outcome.
\<close>

datatype event =
    ReadAdditions
  | ReadTypings
  | FetchLastPatchNumber string
  | ClearOutputPath string
  | WriteJson string json
  | FetchJson string bool
  | FetchSettled string
  | CreateClient
  | Publish string json bool
  | WriteLog string "string list"

record world =
  trace :: "event list"
  logged :: "string list"

text \<open>
  The collaborators that are imported from other modules, as the outcomes of their calls:
  \<open>Inl\<close> is a rejection, and the outcome of a call is any function of its arguments.
  \<open>clearOutputPath\<close> is handed the logger, so it also yields the lines it logs.
  \<open>createClient\<close> is \<open>NpmClient.create\<close> and \<open>clientPublish\<close> the \<open>publish\<close> method of the
  client; \<open>allVersionTags\<close> is \<open>TypeScriptVersion.allVersionTags\<close>; \<open>stringify\<close> is
  \<open>JSON.stringify\<close>, and \<open>completion_order\<close> is the order in which the event loop delivers
  the outcomes of the registry lookups in flight.
\<close>

record env =
  readAdditions :: "error + string list"
  readTypings :: "error + TypingsData list"
  fetchLastPatchNumber :: "string \<Rightarrow> error + int"
  clearOutputPath :: "string \<Rightarrow> string list \<times> (error + unit)"
  writeJson :: "string \<Rightarrow> json \<Rightarrow> error + unit"
  fetchJson :: "string \<Rightarrow> error + json"
  createClient :: "error + unit"
  clientPublish :: "string \<Rightarrow> json \<Rightarrow> bool \<Rightarrow> error + unit"
  writeLog :: "string \<Rightarrow> string list \<Rightarrow> error + unit"
  allVersionTags :: "string list"
  npmRegistry :: string
  outputPath :: string
  joinPaths :: "string \<Rightarrow> string \<Rightarrow> string"
  stringify :: "string list \<Rightarrow> string"
  completion_order :: "nat \<Rightarrow> nat"

definition call :: "event \<Rightarrow> error + 'a \<Rightarrow> world \<Rightarrow> (error + 'a) \<times> world" where
  "call ev outcome w = (outcome, w\<lparr>trace := trace w @ [ev]\<rparr>)"

text \<open>\<open>await\<close>: a rejection of the awaited operation is thrown, and ends the caller.\<close>

definition await ::
  "('s \<Rightarrow> (error + 'a) \<times> 's) \<Rightarrow> ('a \<Rightarrow> 's \<Rightarrow> (error + 'b) \<times> 's) \<Rightarrow> 's \<Rightarrow> (error + 'b) \<times> 's" where
  "await m f s = (case m s of (Inl e, s') \<Rightarrow> (Inl e, s') | (Inr x, s') \<Rightarrow> f x s')"

definition log :: "string \<Rightarrow> world \<Rightarrow> world" where
  "log msg w = w\<lparr>logged := logged w @ [msg]\<rparr>"

definition packageName :: string where
  "packageName = ''types-registry''"

definition registryOutputPath :: "env \<Rightarrow> string" where
  "registryOutputPath env = joinPaths env (outputPath env) packageName"

definition readme :: string where
  "readme = ''This package contains a listing of all packages published to the @types scope on NPM.''
     @ [CHR 0x0A]
     @ ''Generated by [types-publisher](https://github.com/Microsoft/types-publisher).''"

definition generatePackageJson :: "int \<Rightarrow> json" where
  "generatePackageJson patch = JObj
     [(''name'', JStr packageName),
      (''version'', JStr (''0.1.'' @ number_to_string patch)),
      (''description'',
         JStr ''A registry of TypeScript declaration file packages published within the @types scope.''),
      (''repository'', JObj
         [(''type'', JStr ''git''),
          (''url'', JStr ''https://github.com/Microsoft/types-publisher.git'')]),
      (''keywords'', JArr
         [JStr ''TypeScript'', JStr ''declaration'', JStr ''files'', JStr ''types'', JStr ''packages'']),
      (''author'', JStr ''Microsoft Corp.''),
      (''license'', JStr ''Apache-2.0'')]"

text \<open>
  \<open>info["dist-tags"]\<close>: reading a property of \<open>null\<close> throws; a value that is not an
  object has no such property.
\<close>

fun dist_tags :: "json \<Rightarrow> error + json option" where
  "dist_tags JNull = Inl TypeError"
| "dist_tags (JObj ps) = Inr (map_of ps ''dist-tags'')"
| "dist_tags info = Inr None"

text \<open>\<open>getVersions\<close>, up to its \<open>await\<close> and from it.\<close>

definition getVersions_start :: "env \<Rightarrow> string \<Rightarrow> world \<Rightarrow> world" where
  "getVersions_start env escapedPackageName w =
     (let uri = npmRegistry env @ escapedPackageName
      in w\<lparr>trace := trace w @ [FetchJson uri True]\<rparr>)"

definition getVersions_settle ::
  "env \<Rightarrow> string \<Rightarrow> world \<Rightarrow> (error + (string \<times> json) list) \<times> world" where
  "getVersions_settle env escapedPackageName w =
     (let uri = npmRegistry env @ escapedPackageName;
          w' = w\<lparr>trace := trace w @ [FetchSettled uri]\<rparr>
      in case fetchJson env uri of
           Inl e \<Rightarrow> (Inl e, w')
         | Inr info \<Rightarrow>
             (case dist_tags info of
                Inl e \<Rightarrow> (Inl e, w')
              | Inr tags \<Rightarrow> (Inr (pick tags (allVersionTags env)), w')))"

text \<open>
  \<open>addEntry\<close> closes over \<open>entries\<close>, so the state of the mapper call is the pair of
  \<open>entries\<close> and the world. Its first segment is the call of \<open>getVersions\<close>, which issues
  the request; its second segment runs when the request settles and stores the versions
  under the typing's \<open>name\<close>. The progress options that \<open>generateRegistry\<close> hands to the
  mapper only label the progress display.
\<close>

definition addEntry :: "env \<Rightarrow> (TypingsData, unit, (string \<times> json) list \<times> world) transform" where
  "addEntry env =
     \<lparr>start = (\<lambda>typing (entries, w).
               (entries, getVersions_start env (fullEscapedNpmName typing) w)),
      settle = (\<lambda>typing (entries, w).
               case getVersions_settle env (fullEscapedNpmName typing) w of
                 (Inl e, w') \<Rightarrow> (Inl e, (entries, w'))
               | (Inr versions, w') \<Rightarrow>
                   (Inr (), (assign (name typing) (JObj versions) entries, w')))\<rparr>"

definition generateRegistry :: "env \<Rightarrow> TypingsData list \<Rightarrow> world \<Rightarrow> (error + json) \<times> world" where
  "generateRegistry env typings w =
     (case nAtATime 25 typings (addEntry env) (completion_order env) ([], w) of
        (Inl e, (entries, w')) \<Rightarrow> (Inl e, w')
      | (Inr _, (entries, w')) \<Rightarrow> (Inr (JObj [(''entries'', JObj entries)]), w'))"

definition writeOutputFile :: "env \<Rightarrow> string \<Rightarrow> json \<Rightarrow> world \<Rightarrow> (error + unit) \<times> world" where
  "writeOutputFile env filename content =
     call (WriteJson (joinPaths env (registryOutputPath env) filename) content)
          (writeJson env (joinPaths env (registryOutputPath env) filename) content)"

definition generate :: "env \<Rightarrow> TypingsData list \<Rightarrow> json \<Rightarrow> world \<Rightarrow> (error + unit) \<times> world" where
  "generate env typings packageJson =
     await (\<lambda>w. call (ClearOutputPath (registryOutputPath env))
                     (snd (clearOutputPath env (registryOutputPath env)))
                     (fold log (fst (clearOutputPath env (registryOutputPath env))) w)) (\<lambda>_.
     await (writeOutputFile env ''package.json'' packageJson) (\<lambda>_.
     await (generateRegistry env typings) (\<lambda>registry.
     await (writeOutputFile env ''index.json'' registry) (\<lambda>_.
     writeOutputFile env ''README.md'' (JStr readme)))))"

definition publish :: "env \<Rightarrow> json \<Rightarrow> bool \<Rightarrow> world \<Rightarrow> (error + unit) \<times> world" where
  "publish env packageJson dry =
     await (call CreateClient (createClient env)) (\<lambda>client.
     call (Publish (registryOutputPath env) packageJson dry)
          (clientPublish env (registryOutputPath env) packageJson dry))"

definition generateAndPublishRegistry :: "env \<Rightarrow> bool \<Rightarrow> world \<Rightarrow> (error + unit) \<times> world" where
  "generateAndPublishRegistry env dry =
     await (call ReadTypings (readTypings env)) (\<lambda>typings.
     await (call (FetchLastPatchNumber packageName) (fetchLastPatchNumber env packageName)) (\<lambda>last.
     let packageJson = generatePackageJson (last + 1) in
     await (generate env typings packageJson) (\<lambda>_.
     publish env packageJson dry)))"

text \<open>
  \<open>main\<close> starts with a fresh logger and no call made; it yields its outcome and the world
  it leaves. The command line passes \<open>dry\<close> as a boolean (\<open>false\<close> when the flag is absent).
\<close>

definition main :: "env \<Rightarrow> bool \<Rightarrow> (error + unit) \<times> world" where
  "main env dry =
     await (call ReadAdditions (readAdditions env)) (\<lambda>added.
     await (if added \<noteq> [] then
              (\<lambda>w. generateAndPublishRegistry env dry
                     (log (''New packages have been added: '' @ stringify env added
                           @ '', so publishing a new registry'') w))
            else
              (\<lambda>w. (Inr (), log ''No new packages published, so no need to publish new registry.'' w)))
           (\<lambda>_ w.
     call (WriteLog ''publish-registry.md'' (logged w))
          (writeLog env ''publish-registry.md'' (logged w)) w))
       (log ''=== Publishing types-registry ==='' \<lparr>trace = [], logged = []\<rparr>)"

section \<open>Observations on traces\<close>

text \<open>
  Reading a decimal numeral: an optional minus sign and digits, with no leading zero and
  no negative zero. It is the specification that the rendering of a number is checked
  against.
\<close>

definition digit_of :: "char \<Rightarrow> int option" where
  "digit_of c = (if c \<in> set ''0123456789'' then Some (int (of_char c) - 48) else None)"

fun parse_digits :: "int \<Rightarrow> string \<Rightarrow> int option" where
  "parse_digits acc [] = Some acc"
| "parse_digits acc (c # cs) =
     (case digit_of c of None \<Rightarrow> None | Some d \<Rightarrow> parse_digits (10 * acc + d) cs)"

definition parse_nat :: "string \<Rightarrow> int option" where
  "parse_nat s = (if s = [] \<or> (hd s = CHR ''0'' \<and> s \<noteq> ''0'') then None else parse_digits 0 s)"

definition parse_int :: "string \<Rightarrow> int option" where
  "parse_int s =
     (case s of
        [] \<Rightarrow> None
      | c # r \<Rightarrow>
          if c = CHR ''-'' then
            (case parse_nat r of
               None \<Rightarrow> None
             | Some n \<Rightarrow> if n = 0 then None else Some (- n))
          else parse_nat s)"


text \<open>The own properties of a value that is an object.\<close>

fun properties :: "json \<Rightarrow> (string \<times> json) list" where
  "properties (JObj ps) = ps"
| "properties v = []"

text \<open>
  The outcome of \<open>getVersions\<close> for a package: it depends on the registry's answer only,
  not on the world in which the lookup settles.
\<close>

definition lookup :: "env \<Rightarrow> string \<Rightarrow> error + (string \<times> json) list" where
  "lookup env escapedPackageName =
     (case fetchJson env (npmRegistry env @ escapedPackageName) of
        Inl e \<Rightarrow> Inl e
      | Inr info \<Rightarrow>
          (case dist_tags info of
             Inl e \<Rightarrow> Inl e
           | Inr tags \<Rightarrow> Inr (pick tags (allVersionTags env))))"

text \<open>
  The number of registry lookups in flight after a sequence of events: the requests issued
  less the outcomes delivered.
\<close>

fun fetch_delta :: "event \<Rightarrow> int" where
  "fetch_delta (FetchJson uri retries) = 1"
| "fetch_delta (FetchSettled uri) = - 1"
| "fetch_delta ev = 0"

definition in_flight :: "event list \<Rightarrow> int" where
  "in_flight evs = sum_list (map fetch_delta evs)"

fun is_publish :: "event \<Rightarrow> bool" where
  "is_publish (Publish dir packageJson dry) = True"
| "is_publish ev = False"

fun is_fetch :: "event \<Rightarrow> bool" where
  "is_fetch (FetchJson uri retries) = True"
| "is_fetch (FetchSettled uri) = True"
| "is_fetch ev = False"

fun is_write_log :: "event \<Rightarrow> bool" where
  "is_write_log (WriteLog file lines) = True"
| "is_write_log ev = False"

text \<open>
  The invariant of the mapper call of \<open>generateRegistry\<close> on \<open>entries\<close>: its keys are the
  names, other than \<open>__proto__\<close>, of the typings whose lookup has fulfilled, and each value
  is the outcome of the lookup of a typing of that name.
\<close>

definition entries_inv :: "env \<Rightarrow> TypingsData list \<Rightarrow> (unit, (string \<times> json) list \<times> world) pool \<Rightarrow> bool" where
  "entries_inv env typings p \<longleftrightarrow>
     distinct (map fst (fst (shared p))) \<and>
     dom (map_of (fst (shared p))) =
       {name (typings ! i) |i. i < length typings \<and> results p ! i \<noteq> None \<and>
          name (typings ! i) \<noteq> ''__proto__''} \<and>
     (\<forall>k v. map_of (fst (shared p)) k = Some v \<longrightarrow>
        (\<exists>i<length typings. name (typings ! i) = k \<and>
            (\<exists>vs. lookup env (fullEscapedNpmName (typings ! i)) = Inr vs \<and> v = JObj vs)))"

text \<open>
  The invariant of that call on the world: nothing is logged, and the events added to the
  trace are registry events, of which as many are in flight as the mapper has transforms
  in flight, never more than \<open>L\<close> after any prefix, starting with the requests for the first
  \<open>min(L, M)\<close> typings.
\<close>

definition trace_inv :: "nat \<Rightarrow> env \<Rightarrow> TypingsData list \<Rightarrow> world \<Rightarrow> (unit, (string \<times> json) list \<times> world) pool \<Rightarrow> bool" where
  "trace_inv L env typings w p \<longleftrightarrow>
     logged (snd (shared p)) = logged w \<and>
     (\<exists>evs. trace (snd (shared p)) = trace w @ evs \<and>
        in_flight evs = int (length (pending p)) \<and>
        (\<forall>k\<le>length evs. in_flight (take k evs) \<le> int L) \<and>
        take (min L (length typings)) evs =
          map (\<lambda>t. FetchJson (npmRegistry env @ fullEscapedNpmName t) True) (take L typings) \<and>
        (\<forall>ev\<in>set evs. is_fetch ev))"

text \<open>The environment and the typings of the two-package example.\<close>

definition example_typings :: "TypingsData list" where
  "example_typings =
     [\<lparr>name = ''a'', fullEscapedNpmName = ''a''\<rparr>,
      \<lparr>name = ''b'', fullEscapedNpmName = ''b__types''\<rparr>]"

definition example_env :: env where
  "example_env =
     \<lparr>readAdditions = Inr [''b''],
      readTypings = Inr example_typings,
      fetchLastPatchNumber = (\<lambda>pkg. Inr 41),
      clearOutputPath = (\<lambda>path. ([''Clearing '' @ path], Inr ())),
      writeJson = (\<lambda>path content. Inr ()),
      fetchJson = (\<lambda>uri.
        if uri = ''https://registry.npmjs.org/a'' then
          Inr (JObj [(''dist-tags'', JObj
            [(''latest'', JStr ''1.0.0''), (''ts2.8'', JStr ''0.9.0''), (''bogus'', JStr ''x'')])])
        else if uri = ''https://registry.npmjs.org/b__types'' then
          Inr (JObj [(''dist-tags'', JObj [(''latest'', JStr ''2.0.0'')])])
        else Inl (Rejected ''404'')),
      createClient = Inr (),
      clientPublish = (\<lambda>dir packageJson dry. Inr ()),
      writeLog = (\<lambda>file lines. Inr ()),
      allVersionTags = [''latest'', ''ts2.8''],
      npmRegistry = ''https://registry.npmjs.org/'',
      outputPath = ''output'',
      joinPaths = (\<lambda>a b. a @ ''/'' @ b),
      stringify = (\<lambda>added. ''['' @ [CHR 0x22] @ ''b'' @ [CHR 0x22] @ '']''),
      completion_order = (\<lambda>n. 0)\<rparr>"

text \<open>The same environment with a registry that answers for package \<open>a\<close> only.\<close>

definition failing_env :: env where
  "failing_env = example_env\<lparr>fetchJson := (\<lambda>uri.
     if uri = ''https://registry.npmjs.org/a'' then fetchJson example_env uri
     else Inl (Rejected ''ETIMEDOUT''))\<rparr>"


section \<open>Properties of the mapper\<close>

lemma complete_cases:
  assumes "pending p \<noteq> []"
  obtains
    (reject) k e s' where "k < length (pending p)"
      and "settle tr (inputs ! (pending p ! k)) (shared p) = (Inl e, s')"
      and "complete tr inputs c p =
             p\<lparr>pending := remove1 (pending p ! k) (pending p),
               rejected := Some e, shared := s'\<rparr>"
  | (fulfil) k y s' where "k < length (pending p)"
      and "settle tr (inputs ! (pending p ! k)) (shared p) = (Inr y, s')"
      and "complete tr inputs c p =
             claim tr inputs
               (p\<lparr>pending := remove1 (pending p ! k) (pending p),
                  results := (results p)[pending p ! k := Some y], shared := s'\<rparr>)"
proof -
  define k where "k = c mod length (pending p)"
  have k: "k < length (pending p)" using assms by (simp add: k_def)
  obtain r s' where rs: "settle tr (inputs ! (pending p ! k)) (shared p) = (r, s')"
    by (cases "settle tr (inputs ! (pending p ! k)) (shared p)")
  show thesis
  proof (cases r)
    case (Inl e)
    with rs have "complete tr inputs c p =
        p\<lparr>pending := remove1 (pending p ! k) (pending p),
          rejected := Some e, shared := s'\<rparr>"
      by (simp add: complete_def Let_def k_def [symmetric])
    with k rs Inl show thesis by (intro reject) auto
  next
    case (Inr y)
    with rs have "complete tr inputs c p =
        claim tr inputs
          (p\<lparr>pending := remove1 (pending p ! k) (pending p),
             results := (results p)[pending p ! k := Some y], shared := s'\<rparr>)"
      by (simp add: complete_def Let_def k_def [symmetric])
    with k rs Inr show thesis by (intro fulfil) auto
  qed
qed

lemma launch_funpow:
  "k \<le> length inputs \<Longrightarrow>
   (claim tr inputs ^^ k)
      \<lparr>cursor = 0, pending = [], results = rs, invoked = [], rejected = None, shared = s\<rparr>
   = \<lparr>cursor = k, pending = [0..<k], results = rs, invoked = [0..<k], rejected = None,
      shared = fold (\<lambda>i. start tr (inputs ! i)) [0..<k] s\<rparr>"
  by (induction k) (simp_all add: claim_def)

lemma launch_eq:
  "launch L inputs tr s =
     \<lparr>cursor = min L (length inputs), pending = [0..<min L (length inputs)],
      results = replicate (length inputs) None, invoked = [0..<min L (length inputs)],
      rejected = None,
      shared = fold (\<lambda>i. start tr (inputs ! i)) [0..<min L (length inputs)] s\<rparr>"
  unfolding launch_def by (rule launch_funpow) simp

lemma pool_inv_launch: "pool_inv L inputs tr (launch L inputs tr s)"
  unfolding launch_eq pool_inv_def by auto

lemma pool_inv_complete:
  assumes inv: "pool_inv L inputs tr p" and pe: "pending p \<noteq> []" and rj: "rejected p = None"
  shows "pool_inv L inputs tr (complete tr inputs c p)"
  using pe
proof (cases rule: complete_cases [of p tr inputs c])
  case (reject k e s')
  let ?i = "pending p ! k"
  have i: "?i \<in> set (pending p)" using reject(1) by simp
  have il: "?i < length inputs" using i inv unfolding pool_inv_def by auto
  have "fst (settle tr (inputs ! ?i) (shared p)) = Inl e" using reject(2) by simp
  then have ex: "\<exists>i<length inputs. \<exists>s. fst (settle tr (inputs ! i) s) = Inl e"
    using il by blast
  show ?thesis unfolding reject(3) using inv i ex
    by (auto simp: pool_inv_def length_remove1)
next
  case (fulfil k y s')
  let ?i = "pending p ! k"
  have i: "?i \<in> set (pending p)" using fulfil(1) by simp
  have il: "?i < length inputs" "?i < cursor p" using i inv unfolding pool_inv_def by auto
  have ex: "\<exists>s. fst (settle tr (inputs ! ?i) s) = Inr y"
    using fulfil(2) by (metis fst_conv)
  show ?thesis unfolding fulfil(3) using inv i il ex rj pe
    by (auto simp: pool_inv_def length_remove1 claim_def nth_list_update)
qed

lemma run_nonempty: "run tr inputs sched n p \<noteq> []"
  by (subst run.simps) simp

lemma run_invariant:
  assumes "P p"
    and "\<And>q c. P q \<Longrightarrow> pending q \<noteq> [] \<Longrightarrow> rejected q = None \<Longrightarrow> P (complete tr inputs c q)"
  shows "\<forall>q\<in>set (run tr inputs sched n p). P q"
  using assms
proof (induction tr inputs sched n p rule: run.induct)
  case (1 tr inputs sched n p)
  show ?case
  proof (cases "pending p = [] \<or> rejected p \<noteq> None")
    case True
    then show ?thesis using "1.prems"(1) by (subst run.simps) simp
  next
    case False
    then have "P (complete tr inputs (sched n) p)" using "1.prems" by simp
    then have "\<forall>q\<in>set (run tr inputs sched (Suc n) (complete tr inputs (sched n) p)). P q"
      using "1.IH" "1.prems"(2) False by simp
    then show ?thesis using "1.prems"(1) False by (subst run.simps) simp
  qed
qed

lemma run_last_final:
  "pending (last (run tr inputs sched n p)) = [] \<or> rejected (last (run tr inputs sched n p)) \<noteq> None"
proof (induction tr inputs sched n p rule: run.induct)
  case (1 tr inputs sched n p)
  show ?case
  proof (cases "pending p = [] \<or> rejected p \<noteq> None")
    case True
    then show ?thesis by (subst (1 2) run.simps) auto
  next
    case False
    then show ?thesis using "1.IH" run_nonempty [of tr inputs sched "Suc n"]
      by (subst (1 2) run.simps) auto
  qed
qed

lemma run_pool_inv:
  "\<forall>q\<in>set (run tr inputs sched n (launch L inputs tr s)). pool_inv L inputs tr q"
  by (rule run_invariant) (simp_all add: pool_inv_launch pool_inv_complete)

lemma final_pool_inv:
  "pool_inv L inputs tr (last (run tr inputs sched n (launch L inputs tr s)))"
  using run_pool_inv [of tr inputs sched n L s] run_nonempty [of tr inputs sched n] last_in_set
  by blast

lemma fulfilled_results:
  assumes inv: "pool_inv L inputs tr p" and L: "1 \<le> L"
    and fin: "pending p = []" and rj: "rejected p = None"
  shows "cursor p = length inputs"
    and "\<forall>i<length inputs. \<exists>y s. results p ! i = Some y \<and> fst (settle tr (inputs ! i) s) = Inr y"
proof -
  show c: "cursor p = length inputs"
    using inv L fin rj unfolding pool_inv_def by (cases "cursor p < length inputs") auto
  show "\<forall>i<length inputs. \<exists>y s. results p ! i = Some y \<and> fst (settle tr (inputs ! i) s) = Inr y"
  proof (intro allI impI)
    fix i assume i: "i < length inputs"
    then have "results p ! i \<noteq> None" using inv c fin rj unfolding pool_inv_def by auto
    then obtain y where y: "results p ! i = Some y" by auto
    then have "\<exists>s. fst (settle tr (inputs ! i) s) = Inr y"
      using inv i unfolding pool_inv_def by blast
    with y show "\<exists>y s. results p ! i = Some y \<and> fst (settle tr (inputs ! i) s) = Inr y" by blast
  qed
qed

text \<open>
  C2. For every limit \<open>L \<ge> 1\<close>, every input collection and every completion order, when
  the transform fulfils with \<open>f x\<close> on each item \<open>x\<close>, the mapper fulfils with a collection
  of the length of the input that holds \<open>f (input[i])\<close> at each index \<open>i\<close>, whatever \<open>L\<close> is
  relative to the size of the input.
\<close>

theorem nAtATime_maps_in_order:
  assumes "1 \<le> L"
    and "\<forall>x\<in>set inputs. \<forall>s. fst (settle tr x s) = Inr (f x)"
  shows "fst (nAtATime L inputs tr sched s) = Inr (map (\<lambda>x. Some (f x)) inputs)"
proof -
  define p where "p = last (run tr inputs sched 0 (launch L inputs tr s))"
  have inv: "pool_inv L inputs tr p" unfolding p_def by (rule final_pool_inv)
  have rj: "rejected p = None"
  proof (cases "rejected p")
    case (Some e)
    then obtain i s' where "i < length inputs" "fst (settle tr (inputs ! i) s') = Inl e"
      using inv unfolding pool_inv_def by blast
    then show ?thesis using assms(2) by (metis nth_mem sum.distinct(1))
  qed simp
  have fin: "pending p = []" using run_last_final [of tr inputs sched 0 "launch L inputs tr s"] rj
    unfolding p_def by simp
  have len: "length (results p) = length inputs" using inv unfolding pool_inv_def by simp
  have "results p = map (\<lambda>x. Some (f x)) inputs"
  proof (rule nth_equalityI)
    show "length (results p) = length (map (\<lambda>x. Some (f x)) inputs)" using len by simp
  next
    fix i assume "i < length (results p)"
    then have i: "i < length inputs" using len by simp
    then obtain y s' where "results p ! i = Some y" "fst (settle tr (inputs ! i) s') = Inr y"
      using fulfilled_results(2) [OF inv assms(1) fin rj] by blast
    then show "results p ! i = map (\<lambda>x. Some (f x)) inputs ! i"
      using assms(2) i by (metis nth_map nth_mem sum.inject(2))
  qed
  then show ?thesis using rj by (simp add: nAtATime_def p_def [symmetric])
qed

theorem nAtATime_maps_in_order_witness:
  "(1::nat) \<le> 2 \<and>
   fst (nAtATime 2 [10, 20, 30] successor (\<lambda>n. 1) ()) = Inr [Some 11, Some 21, Some 31]"
  using nAtATime_maps_in_order [of 2 "[10, 20, 30]" successor Suc "\<lambda>n. 1" "()"]
  by (simp add: successor_def)

text \<open>
  C3. In every state that a mapper call with limit \<open>L\<close> goes through, whatever the
  completion order, at most \<open>L\<close> transform invocations are in flight, all of them
  invoked ones, and the transform has been invoked exactly once on each index below the
  cursor and on no other; when the operation ends without a rejection and \<open>L \<ge> 1\<close>, that
  is every index of the input.
\<close>

theorem nAtATime_pending_bounded:
  "(\<forall>p\<in>set (run tr inputs sched 0 (launch L inputs tr s)).
      length (pending p) \<le> L \<and> set (pending p) \<subseteq> set (invoked p) \<and>
      invoked p = [0..<cursor p] \<and> cursor p \<le> length inputs) \<and>
   (1 \<le> L \<longrightarrow> rejected (last (run tr inputs sched 0 (launch L inputs tr s))) = None \<longrightarrow>
      invoked (last (run tr inputs sched 0 (launch L inputs tr s))) = [0..<length inputs])"
proof (intro conjI ballI impI)
  fix p assume "p \<in> set (run tr inputs sched 0 (launch L inputs tr s))"
  then have inv: "pool_inv L inputs tr p" using run_pool_inv [of tr inputs sched 0 L s] by blast
  show "length (pending p) \<le> L" "invoked p = [0..<cursor p]" "cursor p \<le> length inputs"
    using inv unfolding pool_inv_def by simp_all
  show "set (pending p) \<subseteq> set (invoked p)"
    using inv unfolding pool_inv_def by auto
next
  define q where "q = last (run tr inputs sched 0 (launch L inputs tr s))"
  assume L: "1 \<le> L" and "rejected (last (run tr inputs sched 0 (launch L inputs tr s))) = None"
  then have rj: "rejected q = None" by (simp add: q_def)
  have inv: "pool_inv L inputs tr q" unfolding q_def by (rule final_pool_inv)
  have fin: "pending q = []"
    using run_last_final [of tr inputs sched 0 "launch L inputs tr s"] rj unfolding q_def by simp
  have "cursor q = length inputs" by (rule fulfilled_results(1) [OF inv L fin rj])
  then show "invoked (last (run tr inputs sched 0 (launch L inputs tr s))) = [0..<length inputs]"
    using inv unfolding pool_inv_def q_def by simp
qed

theorem nAtATime_pending_bounded_witness:
  "map (\<lambda>p. length (pending p)) (run successor [10, 20, 30] (\<lambda>n. 1) 0 (launch 2 [10, 20, 30] successor ()))
     = [2, 2, 1, 0] \<and>
   (1::nat) \<le> 2 \<and>
   rejected (last (run successor [10, 20, 30] (\<lambda>n. 1) 0 (launch 2 [10, 20, 30] successor ()))) = None \<and>
   invoked (last (run successor [10, 20, 30] (\<lambda>n. 1) 0 (launch 2 [10, 20, 30] successor ()))) = [0, 1, 2]"
  using nAtATime_pending_bounded [of successor "[10, 20, 30]" "\<lambda>n. 1" 2 "()"]
  by (simp add: launch_def claim_def complete_def run.simps successor_def numeral_2_eq_2)

section \<open>Properties of registry generation\<close>

lemma fst_getVersions_settle: "fst (getVersions_settle env n w) = lookup env n"
  by (simp add: getVersions_settle_def lookup_def Let_def split: sum.splits)

lemma snd_getVersions_settle:
  "snd (getVersions_settle env n w) = w\<lparr>trace := trace w @ [FetchSettled (npmRegistry env @ n)]\<rparr>"
  by (simp add: getVersions_settle_def Let_def split: sum.splits)

lemma start_addEntry:
  "start (addEntry env) t (entries, w) =
     (entries, w\<lparr>trace := trace w @ [FetchJson (npmRegistry env @ fullEscapedNpmName t) True]\<rparr>)"
  by (simp add: addEntry_def getVersions_start_def)

lemma settle_addEntry:
  "settle (addEntry env) t (entries, w) =
     (case lookup env (fullEscapedNpmName t) of
        Inl e \<Rightarrow> (Inl e, (entries, w\<lparr>trace := trace w @ [FetchSettled (npmRegistry env @ fullEscapedNpmName t)]\<rparr>))
      | Inr versions \<Rightarrow>
          (Inr (), (assign (name t) (JObj versions) entries,
                    w\<lparr>trace := trace w @ [FetchSettled (npmRegistry env @ fullEscapedNpmName t)]\<rparr>)))"
proof -
  obtain r w' where g: "getVersions_settle env (fullEscapedNpmName t) w = (r, w')"
    by (cases "getVersions_settle env (fullEscapedNpmName t) w")
  have "r = lookup env (fullEscapedNpmName t)"
    using fst_getVersions_settle [of env "fullEscapedNpmName t" w] g by simp
  moreover have "w' = w\<lparr>trace := trace w @ [FetchSettled (npmRegistry env @ fullEscapedNpmName t)]\<rparr>"
    using snd_getVersions_settle [of env "fullEscapedNpmName t" w] g by simp
  ultimately show ?thesis using g by (simp add: addEntry_def split: sum.splits)
qed

lemma fst_settle_addEntry:
  "fst (settle (addEntry env) t s) = map_sum id (\<lambda>_. ()) (lookup env (fullEscapedNpmName t))"
  by (cases s) (simp add: settle_addEntry split: sum.splits)

lemma shared_launch_addEntry:
  "fold (\<lambda>i. start (addEntry env) (typings ! i)) [0..<k] (entries, w) =
     (entries, w\<lparr>trace := trace w @ map (\<lambda>i. FetchJson (npmRegistry env @ fullEscapedNpmName (typings ! i)) True) [0..<k]\<rparr>)"
  by (induction k) (simp_all add: start_addEntry)

lemma entries_inv_launch: "entries_inv env typings (launch L typings (addEntry env) ([], w))"
  unfolding launch_eq entries_inv_def by (auto simp: shared_launch_addEntry)

lemma entries_inv_complete:
  assumes inv: "pool_inv L typings (addEntry env) p" and e: "entries_inv env typings p"
    and pe: "pending p \<noteq> []" and rj: "rejected p = None"
  shows "entries_inv env typings (complete (addEntry env) typings c p)"
  using pe
proof (cases rule: complete_cases [of p "addEntry env" typings c])
  case (reject k e s')
  obtain entries w where sp: "shared p = (entries, w)" by (cases "shared p")
  have "fst s' = entries" using reject(2) unfolding sp
    by (auto simp: settle_addEntry split: sum.splits)
  then show ?thesis unfolding reject(3) using e sp by (simp add: entries_inv_def)
next
  case (fulfil k y s')
  let ?i = "pending p ! k"
  let ?t = "typings ! ?i"
  obtain entries w where sp: "shared p = (entries, w)" by (cases "shared p")
  have i: "?i \<in> set (pending p)" using fulfil(1) by simp
  have il: "?i < length typings" "?i < length (results p)" using i inv unfolding pool_inv_def by auto
  obtain vs where vs: "lookup env (fullEscapedNpmName ?t) = Inr vs"
    and s': "fst s' = assign (name ?t) (JObj vs) entries"
    using fulfil(2) unfolding sp by (auto simp: settle_addEntry split: sum.splits)
  define q where "q = p\<lparr>pending := remove1 ?i (pending p), results := (results p)[?i := Some y], shared := s'\<rparr>"
  have fq: "fst (shared (claim (addEntry env) typings q)) = fst s'"
    by (cases s') (auto simp: claim_def q_def start_addEntry)
  have rq: "results (claim (addEntry env) typings q) = (results p)[?i := Some y]"
    by (auto simp: claim_def q_def)
  have d: "distinct (map fst (fst s'))" using e sp unfolding s' entries_inv_def
    by (simp add: assign_def distinct_update)
  have dm: "dom (map_of (fst s')) =
      {name (typings ! j) |j. j < length typings \<and> (results p)[?i := Some y] ! j \<noteq> None \<and>
         name (typings ! j) \<noteq> ''__proto__''}"
  proof -
    have old: "dom (map_of entries) =
        {name (typings ! j) |j. j < length typings \<and> results p ! j \<noteq> None \<and>
           name (typings ! j) \<noteq> ''__proto__''}"
      using e sp unfolding entries_inv_def by simp
    show ?thesis
    proof (cases "name ?t = ''__proto__''")
      case True
      then have "dom (map_of (fst s')) = dom (map_of entries)" unfolding s' by (simp add: assign_def)
      then show ?thesis unfolding old using il True by (auto simp: nth_list_update)
    next
      case False
      then have "dom (map_of (fst s')) = insert (name ?t) (dom (map_of entries))"
        unfolding s' by (simp add: assign_def update_conv')
      then show ?thesis unfolding old using il False by (auto simp: nth_list_update)
    qed
  qed
  have vals: "\<forall>k v. map_of (fst s') k = Some v \<longrightarrow>
        (\<exists>i<length typings. name (typings ! i) = k \<and>
            (\<exists>vs. lookup env (fullEscapedNpmName (typings ! i)) = Inr vs \<and> v = JObj vs))"
    using e sp il vs unfolding s' entries_inv_def
    by (auto simp: assign_def update_conv' split: if_splits)
  show ?thesis unfolding fulfil(3) q_def [symmetric] entries_inv_def fq rq using d dm vals
    by blast
qed


lemma in_flight_append [simp]: "in_flight (xs @ ys) = in_flight xs + in_flight ys"
  by (simp add: in_flight_def)

lemma in_flight_simps [simp]:
  "in_flight [] = 0"
  "in_flight (ev # evs) = fetch_delta ev + in_flight evs"
  by (simp_all add: in_flight_def)

lemma in_flight_requests:
  "in_flight (map (\<lambda>x. FetchJson (g x) True) xs) = int (length xs)"
  by (induction xs) (simp_all add: in_flight_def)

lemma prefix_bound_snoc:
  assumes "\<forall>k\<le>length evs. in_flight (take k evs) \<le> b" and "in_flight (evs @ [e]) \<le> b"
  shows "\<forall>k\<le>length (evs @ [e]). in_flight (take k (evs @ [e])) \<le> b"
proof (intro allI impI)
  fix k assume k: "k \<le> length (evs @ [e])"
  show "in_flight (take k (evs @ [e])) \<le> b"
  proof (cases "k \<le> length evs")
    case True
    then show ?thesis using assms(1) by simp
  next
    case False
    then have "take k (evs @ [e]) = evs @ [e]" using k by simp
    then show ?thesis using assms(2) by simp
  qed
qed

lemma Suc_length_remove1:
  "x \<in> set xs \<Longrightarrow> Suc (length (remove1 x xs)) = length xs"
  using length_pos_if_in_set [of x xs] by (simp add: length_remove1)

lemma burst_eq:
  "k \<le> length typings \<Longrightarrow> map (\<lambda>i. g (typings ! i)) [0..<k] = map g (take k typings)"
  by (rule nth_equalityI) simp_all

lemma trace_inv_launch: "trace_inv L env typings w (launch L typings (addEntry env) ([], w))"
proof -
  let ?g = "\<lambda>t. FetchJson (npmRegistry env @ fullEscapedNpmName t) True"
  let ?m = "min L (length typings)"
  let ?evs = "map ?g (take ?m typings)"
  have sh: "shared (launch L typings (addEntry env) ([], w)) = ([], w\<lparr>trace := trace w @ ?evs\<rparr>)"
    unfolding launch_eq by (simp add: shared_launch_addEntry burst_eq [of ?m typings ?g])
  have pe: "pending (launch L typings (addEntry env) ([], w)) = [0..<?m]"
    unfolding launch_eq by simp
  have tk: "take ?m typings = take L typings" by (simp add: min_def)
  have 1: "in_flight ?evs = int ?m" by (simp add: in_flight_requests)
  have 2: "\<forall>k\<le>length ?evs. in_flight (take k ?evs) \<le> int L"
  proof (intro allI impI)
    fix k assume "k \<le> length ?evs"
    have "take k ?evs = map ?g (take k (take ?m typings))" by (simp add: take_map)
    then have "in_flight (take k ?evs) = int (length (take k (take ?m typings)))"
      by (simp add: in_flight_requests)
    then show "in_flight (take k ?evs) \<le> int L" by simp
  qed
  have 3: "take ?m ?evs = map ?g (take L typings)" unfolding tk by simp
  have 4: "\<forall>ev\<in>set ?evs. is_fetch ev" by auto
  show ?thesis unfolding trace_inv_def sh pe using 1 2 3 4 by (intro conjI exI [of _ ?evs]) simp_all
qed

lemma trace_inv_complete:
  assumes inv: "pool_inv L typings (addEntry env) p" and t: "trace_inv L env typings w p"
    and pe: "pending p \<noteq> []" and rj: "rejected p = None"
  shows "trace_inv L env typings w (complete (addEntry env) typings c p)"
proof -
  let ?g = "\<lambda>t. FetchJson (npmRegistry env @ fullEscapedNpmName t) True"
  let ?m = "min L (length typings)"
  obtain entries w' where sp: "shared p = (entries, w')" by (cases "shared p")
  obtain evs where lg: "logged w' = logged w" and tr: "trace w' = trace w @ evs"
    and fl: "in_flight evs = int (length (pending p))"
    and pb: "\<forall>k\<le>length evs. in_flight (take k evs) \<le> int L"
    and bu: "take ?m evs = map ?g (take L typings)"
    and fe: "\<forall>ev\<in>set evs. is_fetch ev"
    using t sp unfolding trace_inv_def by auto
  have "length (take ?m evs) = ?m" unfolding bu by simp
  then have le: "?m \<le> length evs" by simp
  have pl: "length (pending p) \<le> L" using inv unfolding pool_inv_def by simp
  have p0: "0 < length (pending p)" using pe by simp
  show ?thesis
    using pe
  proof (cases rule: complete_cases [of p "addEntry env" typings c])
    case (reject k e s')
    let ?u = "npmRegistry env @ fullEscapedNpmName (typings ! (pending p ! k))"
    let ?evs = "evs @ [FetchSettled ?u]"
    have i: "pending p ! k \<in> set (pending p)" using reject(1) by simp
    have s': "snd s' = w'\<lparr>trace := trace w' @ [FetchSettled ?u]\<rparr>"
      using reject(2) unfolding sp by (auto simp: settle_addEntry split: sum.splits)
    have 1: "in_flight ?evs = int (length (remove1 (pending p ! k) (pending p)))"
      using fl Suc_length_remove1 [OF i] by simp
    have 2: "\<forall>k\<le>length ?evs. in_flight (take k ?evs) \<le> int L"
      by (rule prefix_bound_snoc [OF pb]) (use fl pl in simp)
    have 3: "take ?m ?evs = map ?g (take L typings)" using bu le by simp
    have 4: "\<forall>ev\<in>set ?evs. is_fetch ev" using fe by simp
    show ?thesis unfolding reject(3) trace_inv_def
      using lg tr s' 1 2 3 4 by (intro conjI exI [of _ ?evs]) simp_all
  next
    case (fulfil k y s')
    let ?i = "pending p ! k"
    let ?u = "npmRegistry env @ fullEscapedNpmName (typings ! ?i)"
    let ?evs = "evs @ [FetchSettled ?u]"
    have i: "?i \<in> set (pending p)" using fulfil(1) by simp
    have s': "snd s' = w'\<lparr>trace := trace w' @ [FetchSettled ?u]\<rparr>"
      using fulfil(2) unfolding sp by (auto simp: settle_addEntry split: sum.splits)
    define q where "q = p\<lparr>pending := remove1 ?i (pending p), results := (results p)[?i := Some y], shared := s'\<rparr>"
    have 1: "in_flight ?evs = int (length (pending q))"
      using fl Suc_length_remove1 [OF i] by (simp add: q_def)
    have 2: "\<forall>k\<le>length ?evs. in_flight (take k ?evs) \<le> int L"
      by (rule prefix_bound_snoc [OF pb]) (use fl pl in simp)
    have 3: "take ?m ?evs = map ?g (take L typings)" using bu le by simp
    have 4: "\<forall>ev\<in>set ?evs. is_fetch ev" using fe by simp
    have tq: "trace_inv L env typings w q" unfolding trace_inv_def
      using lg tr s' 1 2 3 4 by (intro conjI exI [of _ ?evs]) (simp_all add: q_def)
    have lq: "length (pending q) < L"
      using pl Suc_length_remove1 [OF i] by (simp add: q_def)
    show ?thesis
    proof (cases "cursor q < length typings")
      case False
      then have "claim (addEntry env) typings q = q" by (simp add: claim_def)
      then show ?thesis unfolding fulfil(3) q_def [symmetric] using tq by simp
    next
      case True
      let ?r = "FetchJson (npmRegistry env @ fullEscapedNpmName (typings ! cursor q)) True"
      let ?evs' = "?evs @ [?r]"
      have sq: "shared q = s'" by (simp add: q_def)
      have cq: "snd (shared (claim (addEntry env) typings q)) = (snd s')\<lparr>trace := trace (snd s') @ [?r]\<rparr>"
        using True by (cases s') (simp add: claim_def sq start_addEntry)
      have pq: "pending (claim (addEntry env) typings q) = pending q @ [cursor q]"
        using True by (simp add: claim_def)
      have n1: "in_flight ?evs' = int (length (pending q @ [cursor q]))" using 1 by simp
      have n2: "\<forall>k\<le>length ?evs'. in_flight (take k ?evs') \<le> int L"
        by (rule prefix_bound_snoc [OF 2]) (use 1 lq in simp)
      have n3: "take ?m ?evs' = map ?g (take L typings)" using bu le by simp
      have n4: "\<forall>ev\<in>set ?evs'. is_fetch ev" using fe by simp
      show ?thesis unfolding fulfil(3) q_def [symmetric] trace_inv_def cq pq
        using lg tr s' n1 n2 n3 n4 by (intro conjI exI [of _ ?evs']) simp_all
    qed
  qed
qed


lemma run_registry_inv:
  "\<forall>q\<in>set (run (addEntry env) typings sched n (launch L typings (addEntry env) ([], w))).
     pool_inv L typings (addEntry env) q \<and> entries_inv env typings q \<and> trace_inv L env typings w q"
proof (rule run_invariant)
  show "pool_inv L typings (addEntry env) (launch L typings (addEntry env) ([], w)) \<and>
        entries_inv env typings (launch L typings (addEntry env) ([], w)) \<and>
        trace_inv L env typings w (launch L typings (addEntry env) ([], w))"
    by (simp add: pool_inv_launch entries_inv_launch trace_inv_launch)
next
  fix q c
  assume "pool_inv L typings (addEntry env) q \<and> entries_inv env typings q \<and> trace_inv L env typings w q"
    and "pending q \<noteq> []" and "rejected q = None"
  then show "pool_inv L typings (addEntry env) (complete (addEntry env) typings c q) \<and>
        entries_inv env typings (complete (addEntry env) typings c q) \<and>
        trace_inv L env typings w (complete (addEntry env) typings c q)"
    using pool_inv_complete [of L typings "addEntry env" q c]
      entries_inv_complete [of L typings env q c] trace_inv_complete [of L typings env q w c]
    by blast
qed

lemma final_registry_inv:
  assumes "p = last (run (addEntry env) typings sched n (launch L typings (addEntry env) ([], w)))"
  shows "pool_inv L typings (addEntry env) p" "entries_inv env typings p" "trace_inv L env typings w p"
    "pending p = [] \<or> rejected p \<noteq> None"
proof -
  have "p \<in> set (run (addEntry env) typings sched n (launch L typings (addEntry env) ([], w)))"
    unfolding assms using run_nonempty by (intro last_in_set)
  then show "pool_inv L typings (addEntry env) p" "entries_inv env typings p" "trace_inv L env typings w p"
    using run_registry_inv [of env typings sched n L w] by blast+
  show "pending p = [] \<or> rejected p \<noteq> None" unfolding assms by (rule run_last_final)
qed

lemma generateRegistry_eq:
  "generateRegistry env typings w =
     (let p = last (run (addEntry env) typings (completion_order env) 0
                      (launch 25 typings (addEntry env) ([], w)))
      in case rejected p of
           Some e \<Rightarrow> (Inl e, snd (shared p))
         | None \<Rightarrow> (Inr (JObj [(''entries'', JObj (fst (shared p)))]), snd (shared p)))"
  by (simp add: generateRegistry_def nAtATime_def Let_def split: option.splits prod.splits)








text \<open>
  C4. When the registry lookup of one of the typings fails, the mapper call and with it
  \<open>generateRegistry\<close> reject, with the error of a failed lookup (that error when it is
  the only one): no item's failure is caught, and no index is returned.
\<close>

theorem fetch_failure_rejects_batch:
  assumes t: "t \<in> set typings"
    and fails: "fetchJson env (npmRegistry env @ fullEscapedNpmName t) = Inl e"
  shows "\<exists>t'\<in>set typings. \<exists>e'.
      lookup env (fullEscapedNpmName t') = Inl e' \<and>
      fst (nAtATime 25 typings (addEntry env) (completion_order env) ([], w)) = Inl e' \<and>
      fst (generateRegistry env typings w) = Inl e'"
proof -
  define p where "p = last (run (addEntry env) typings (completion_order env) 0
                      (launch 25 typings (addEntry env) ([], w)))"
  note inv = final_registry_inv [OF p_def]
  have lk: "lookup env (fullEscapedNpmName t) = Inl e" using fails by (simp add: lookup_def)
  obtain i where i: "i < length typings" "typings ! i = t" using t by (auto simp: in_set_conv_nth)
  have "rejected p \<noteq> None"
  proof
    assume rj: "rejected p = None"
    then have fin: "pending p = []" using inv(4) by simp
    obtain y s where "fst (settle (addEntry env) (typings ! i) s) = Inr y"
      using fulfilled_results(2) [OF inv(1) _ fin rj] i(1) by fastforce
    then show False using lk i(2) by (simp add: fst_settle_addEntry)
  qed
  then obtain e' where e': "rejected p = Some e'" by auto
  then obtain j s where j: "j < length typings"
    and "fst (settle (addEntry env) (typings ! j) s) = Inl e'"
    using inv(1) unfolding pool_inv_def by blast
  then have "lookup env (fullEscapedNpmName (typings ! j)) = Inl e'"
    by (cases "lookup env (fullEscapedNpmName (typings ! j))") (simp_all add: fst_settle_addEntry)
  moreover have "fst (nAtATime 25 typings (addEntry env) (completion_order env) ([], w)) = Inl e'"
    using e' by (simp add: nAtATime_def p_def [symmetric])
  moreover have "fst (generateRegistry env typings w) = Inl e'"
    using e' by (simp add: generateRegistry_eq p_def [symmetric])
  ultimately show ?thesis using j by (intro bexI [of _ "typings ! j"] exI [of _ e']) simp_all
qed

theorem fetch_failure_rejects_batch_witness:
  "fst (generateRegistry
         (example_env\<lparr>fetchJson := (\<lambda>uri.
            if uri = ''https://registry.npmjs.org/a'' then fetchJson example_env uri
            else Inl (Rejected ''ETIMEDOUT''))\<rparr>)
         example_typings \<lparr>trace = [], logged = []\<rparr>) = Inl (Rejected ''ETIMEDOUT'')"
proof -
  let ?env = "example_env\<lparr>fetchJson := (\<lambda>uri.
            if uri = ''https://registry.npmjs.org/a'' then fetchJson example_env uri
            else Inl (Rejected ''ETIMEDOUT''))\<rparr>"
  let ?b = "\<lparr>name = ''b'', fullEscapedNpmName = ''b__types''\<rparr>"
  have t: "?b \<in> set example_typings" by (simp add: example_typings_def)
  have fails: "fetchJson ?env (npmRegistry ?env @ fullEscapedNpmName ?b) = Inl (Rejected ''ETIMEDOUT'')"
    by (simp add: example_env_def)
  have only: "lookup ?env (fullEscapedNpmName t') = Inl e' \<Longrightarrow> e' = Rejected ''ETIMEDOUT''"
    if "t' \<in> set example_typings" for t' e'
    using that by (auto simp: example_typings_def example_env_def lookup_def split: if_splits)
  show ?thesis
    using fetch_failure_rejects_batch [OF t fails, of "\<lparr>trace = [], logged = []\<rparr>"] only by blast
qed



section \<open>Properties of a run of the publisher\<close>

lemma trace_fold_log [simp]: "trace (fold log lines w) = trace w"
  by (induction lines arbitrary: w) (simp_all add: log_def)

lemma logged_fold_log [simp]: "logged (fold log lines w) = logged w @ lines"
  by (induction lines arbitrary: w) (simp_all add: log_def)

lemma generateRegistry_events:
  "\<exists>evs. trace (snd (generateRegistry env typings w)) = trace w @ evs \<and>
      (\<forall>ev\<in>set evs. is_fetch ev) \<and>
      logged (snd (generateRegistry env typings w)) = logged w"
proof -
  define p where "p = last (run (addEntry env) typings (completion_order env) 0
                      (launch 25 typings (addEntry env) ([], w)))"
  note inv = final_registry_inv [OF p_def]
  have "snd (generateRegistry env typings w) = snd (shared p)"
    by (simp add: generateRegistry_eq p_def [symmetric] split: option.splits)
  then show ?thesis using inv(3) unfolding trace_inv_def by auto
qed

lemma generate_unfold:
  "generate env typings packageJson w =
     (let dir = registryOutputPath env;
          w1 = (fold log (fst (clearOutputPath env dir)) w)\<lparr>trace := trace w @ [ClearOutputPath dir]\<rparr>;
          w2 = w1\<lparr>trace := trace w1 @ [WriteJson (joinPaths env dir ''package.json'') packageJson]\<rparr>
      in case snd (clearOutputPath env dir) of
           Inl e \<Rightarrow> (Inl e, w1)
         | Inr _ \<Rightarrow>
            (case writeJson env (joinPaths env dir ''package.json'') packageJson of
               Inl e \<Rightarrow> (Inl e, w2)
             | Inr _ \<Rightarrow>
                (case generateRegistry env typings w2 of
                   (Inl e, w3) \<Rightarrow> (Inl e, w3)
                 | (Inr registry, w3) \<Rightarrow>
                    (case writeJson env (joinPaths env dir ''index.json'') registry of
                       Inl e \<Rightarrow> (Inl e, w3\<lparr>trace := trace w3 @ [WriteJson (joinPaths env dir ''index.json'') registry]\<rparr>)
                     | Inr _ \<Rightarrow>
                        (writeJson env (joinPaths env dir ''README.md'') (JStr readme),
                         w3\<lparr>trace := trace w3 @
                           [WriteJson (joinPaths env dir ''index.json'') registry,
                            WriteJson (joinPaths env dir ''README.md'') (JStr readme)]\<rparr>)))))"
  by (simp add: generate_def await_def call_def writeOutputFile_def Let_def
           split: sum.splits prod.splits)


lemma generate_events:
  "\<exists>evs. trace (snd (generate env typings packageJson w)) = trace w @ evs \<and>
      (\<forall>ev\<in>set evs. \<not> is_publish ev \<and> \<not> is_write_log ev)"
proof -
  define dir where "dir = registryOutputPath env"
  define w2 where "w2 = (fold log (fst (clearOutputPath env dir)) w)
      \<lparr>trace := trace w @ [ClearOutputPath dir, WriteJson (joinPaths env dir ''package.json'') packageJson]\<rparr>"
  obtain evs where evs: "trace (snd (generateRegistry env typings w2)) = trace w2 @ evs"
    "\<forall>ev\<in>set evs. is_fetch ev"
    using generateRegistry_events [of env typings w2] by blast
  have q: "\<not> is_publish ev \<and> \<not> is_write_log ev" if "ev \<in> set evs" for ev
    using evs(2) that by (cases ev) auto
  obtain r w3 where g: "generateRegistry env typings w2 = (r, w3)"
    by (cases "generateRegistry env typings w2")
  have t3: "trace w3 = trace w @ [ClearOutputPath dir, WriteJson (joinPaths env dir ''package.json'') packageJson] @ evs"
    using evs(1) g by (simp add: w2_def)
  show ?thesis
    using g t3 q unfolding generate_unfold dir_def [symmetric] Let_def
    by (auto simp: w2_def split: sum.splits)
qed

lemma generate_success:
  assumes "generate env typings packageJson w = (Inr (), w')"
  shows "\<exists>registry w2 evs.
      snd (clearOutputPath env (registryOutputPath env)) = Inr () \<and>
      writeJson env (joinPaths env (registryOutputPath env) ''package.json'') packageJson = Inr () \<and>
      fst (generateRegistry env typings w2) = Inr registry \<and>
      writeJson env (joinPaths env (registryOutputPath env) ''index.json'') registry = Inr () \<and>
      writeJson env (joinPaths env (registryOutputPath env) ''README.md'') (JStr readme) = Inr () \<and>
      trace w' = trace w @
        [ClearOutputPath (registryOutputPath env),
         WriteJson (joinPaths env (registryOutputPath env) ''package.json'') packageJson] @ evs @
        [WriteJson (joinPaths env (registryOutputPath env) ''index.json'') registry,
         WriteJson (joinPaths env (registryOutputPath env) ''README.md'') (JStr readme)] \<and>
      (\<forall>ev\<in>set evs. is_fetch ev)"
proof -
  define dir where "dir = registryOutputPath env"
  define w2 where "w2 = (fold log (fst (clearOutputPath env dir)) w)
      \<lparr>trace := trace w @ [ClearOutputPath dir, WriteJson (joinPaths env dir ''package.json'') packageJson]\<rparr>"
  obtain evs where evs: "trace (snd (generateRegistry env typings w2)) = trace w2 @ evs"
    "\<forall>ev\<in>set evs. is_fetch ev"
    using generateRegistry_events [of env typings w2] by blast
  obtain r w3 where g: "generateRegistry env typings w2 = (r, w3)"
    by (cases "generateRegistry env typings w2")
  have t3: "trace w3 = trace w @ [ClearOutputPath dir, WriteJson (joinPaths env dir ''package.json'') packageJson] @ evs"
    using evs(1) g by (simp add: w2_def)
  have "snd (clearOutputPath env dir) = Inr () \<and>
      writeJson env (joinPaths env dir ''package.json'') packageJson = Inr () \<and>
      (\<exists>registry. r = Inr registry \<and>
      writeJson env (joinPaths env dir ''index.json'') registry = Inr () \<and>
      writeJson env (joinPaths env dir ''README.md'') (JStr readme) = Inr () \<and>
      trace w' = trace w @
        [ClearOutputPath dir, WriteJson (joinPaths env dir ''package.json'') packageJson] @ evs @
        [WriteJson (joinPaths env dir ''index.json'') registry,
         WriteJson (joinPaths env dir ''README.md'') (JStr readme)])"
    using assms g t3 unfolding generate_unfold dir_def [symmetric] Let_def
    by (auto simp: w2_def split: sum.splits)
  then obtain registry where "snd (clearOutputPath env dir) = Inr ()"
      "writeJson env (joinPaths env dir ''package.json'') packageJson = Inr ()"
      "r = Inr registry"
      "writeJson env (joinPaths env dir ''index.json'') registry = Inr ()"
      "writeJson env (joinPaths env dir ''README.md'') (JStr readme) = Inr ()"
      "trace w' = trace w @
        [ClearOutputPath dir, WriteJson (joinPaths env dir ''package.json'') packageJson] @ evs @
        [WriteJson (joinPaths env dir ''index.json'') registry,
         WriteJson (joinPaths env dir ''README.md'') (JStr readme)]"
    by blast
  then show ?thesis using g evs(2) unfolding dir_def [symmetric]
    by (intro exI [of _ registry] exI [of _ w2] exI [of _ evs]) simp
qed

lemma generateAndPublishRegistry_unfold:
  "generateAndPublishRegistry env dry w =
     (case readTypings env of
        Inl e \<Rightarrow> (Inl e, w\<lparr>trace := trace w @ [ReadTypings]\<rparr>)
      | Inr typings \<Rightarrow>
         (case fetchLastPatchNumber env packageName of
            Inl e \<Rightarrow> (Inl e, w\<lparr>trace := trace w @ [ReadTypings, FetchLastPatchNumber packageName]\<rparr>)
          | Inr patch \<Rightarrow>
             (case generate env typings (generatePackageJson (patch + 1))
                     (w\<lparr>trace := trace w @ [ReadTypings, FetchLastPatchNumber packageName]\<rparr>) of
                (Inl e, w1) \<Rightarrow> (Inl e, w1)
              | (Inr _, w1) \<Rightarrow>
                 (case createClient env of
                    Inl e \<Rightarrow> (Inl e, w1\<lparr>trace := trace w1 @ [CreateClient]\<rparr>)
                  | Inr _ \<Rightarrow>
                     (clientPublish env (registryOutputPath env) (generatePackageJson (patch + 1)) dry,
                      w1\<lparr>trace := trace w1 @
                        [CreateClient,
                         Publish (registryOutputPath env) (generatePackageJson (patch + 1)) dry]\<rparr>)))))"
  by (simp add: generateAndPublishRegistry_def publish_def await_def call_def Let_def
           split: sum.splits prod.splits)

lemma generateAndPublishRegistry_cases:
  obtains
    (fail) e w1 evs where
      "\<forall>dry. generateAndPublishRegistry env dry w = (Inl e, w1)"
      "trace w1 = trace w @ evs"
      "\<forall>ev\<in>set evs. \<not> is_publish ev \<and> \<not> is_write_log ev"
  | (publish) typings patch w1 evs where
      "readTypings env = Inr typings"
      "fetchLastPatchNumber env packageName = Inr patch"
      "generate env typings (generatePackageJson (patch + 1))
         (w\<lparr>trace := trace w @ [ReadTypings, FetchLastPatchNumber packageName]\<rparr>) = (Inr (), w1)"
      "createClient env = Inr ()"
      "\<forall>dry. generateAndPublishRegistry env dry w =
         (clientPublish env (registryOutputPath env) (generatePackageJson (patch + 1)) dry,
          w1\<lparr>trace := trace w1 @
            [CreateClient, Publish (registryOutputPath env) (generatePackageJson (patch + 1)) dry]\<rparr>)"
      "trace w1 = trace w @ evs"
      "\<forall>ev\<in>set evs. \<not> is_publish ev \<and> \<not> is_write_log ev"
proof (cases "readTypings env")
  case (Inl e)
  show ?thesis
    by (rule fail [of e "w\<lparr>trace := trace w @ [ReadTypings]\<rparr>" "[ReadTypings]"])
       (simp_all add: generateAndPublishRegistry_unfold Inl)
next
  case typings: (Inr typings)
  show ?thesis
  proof (cases "fetchLastPatchNumber env packageName")
    case (Inl e)
    show ?thesis
      by (rule fail [of e "w\<lparr>trace := trace w @ [ReadTypings, FetchLastPatchNumber packageName]\<rparr>"
                 "[ReadTypings, FetchLastPatchNumber packageName]"])
         (simp_all add: generateAndPublishRegistry_unfold typings Inl)
  next
    case patch: (Inr patch)
    define w0 where "w0 = w\<lparr>trace := trace w @ [ReadTypings, FetchLastPatchNumber packageName]\<rparr>"
    obtain r w1 where g: "generate env typings (generatePackageJson (patch + 1)) w0 = (r, w1)"
      by (cases "generate env typings (generatePackageJson (patch + 1)) w0")
    obtain evs where evs: "trace w1 = trace w0 @ evs"
      "\<forall>ev\<in>set evs. \<not> is_publish ev \<and> \<not> is_write_log ev"
      using generate_events [of env typings "generatePackageJson (patch + 1)" w0] g by auto
    have t1: "trace w1 = trace w @ ([ReadTypings, FetchLastPatchNumber packageName] @ evs)"
      using evs(1) by (simp add: w0_def)
    have q1: "\<forall>ev\<in>set ([ReadTypings, FetchLastPatchNumber packageName] @ evs).
        \<not> is_publish ev \<and> \<not> is_write_log ev"
      using evs(2) by simp
    show ?thesis
    proof (cases r)
      case (Inl e)
      show ?thesis
        by (rule fail [OF _ t1 q1, of e])
           (use g Inl in \<open>simp add: generateAndPublishRegistry_unfold typings patch w0_def [symmetric]\<close>)
    next
      case (Inr u)
      show ?thesis
      proof (cases "createClient env")
        case (Inl e)
        show ?thesis
          by (rule fail [of e "w1\<lparr>trace := trace w1 @ [CreateClient]\<rparr>"
                  "[ReadTypings, FetchLastPatchNumber packageName] @ evs @ [CreateClient]"])
             (use g Inr Inl t1 q1 in
               \<open>simp_all add: generateAndPublishRegistry_unfold typings patch w0_def [symmetric]\<close>)
      next
        case client: (Inr c)
        show ?thesis
          by (rule publish [OF typings patch _ _ _ t1 q1])
             (use g Inr client in
               \<open>simp_all add: generateAndPublishRegistry_unfold typings patch w0_def [symmetric]\<close>)
      qed
    qed
  qed
qed


lemma main_unfold:
  "main env dry =
     (case readAdditions env of
        Inl e \<Rightarrow> (Inl e, \<lparr>trace = [ReadAdditions], logged = [''=== Publishing types-registry ==='']\<rparr>)
      | Inr added \<Rightarrow>
         (case (if added \<noteq> [] then
                  generateAndPublishRegistry env dry
                    \<lparr>trace = [ReadAdditions],
                     logged = [''=== Publishing types-registry ==='',
                               ''New packages have been added: '' @ stringify env added
                                 @ '', so publishing a new registry'']\<rparr>
                else (Inr (),
                    \<lparr>trace = [ReadAdditions],
                     logged = [''=== Publishing types-registry ==='',
                               ''No new packages published, so no need to publish new registry.'']\<rparr>)) of
            (Inl e, w) \<Rightarrow> (Inl e, w)
          | (Inr _, w) \<Rightarrow>
              (writeLog env ''publish-registry.md'' (logged w),
               w\<lparr>trace := trace w @ [WriteLog ''publish-registry.md'' (logged w)]\<rparr>)))"
  by (simp add: main_def await_def call_def log_def split: sum.splits prod.splits)

lemma main_cases:
  obtains
    (unread) e where
      "readAdditions env = Inl e"
      "\<forall>dry. main env dry =
         (Inl e, \<lparr>trace = [ReadAdditions], logged = [''=== Publishing types-registry ==='']\<rparr>)"
  | (idle)
      "readAdditions env = Inr []"
      "\<forall>dry. main env dry =
         (writeLog env ''publish-registry.md''
            [''=== Publishing types-registry ==='',
             ''No new packages published, so no need to publish new registry.''],
          \<lparr>trace = [ReadAdditions, WriteLog ''publish-registry.md''
              [''=== Publishing types-registry ==='',
               ''No new packages published, so no need to publish new registry.'']],
           logged = [''=== Publishing types-registry ==='',
               ''No new packages published, so no need to publish new registry.'']\<rparr>)"
  | (aborted) added e w1 evs where
      "readAdditions env = Inr added" "added \<noteq> []"
      "\<forall>dry. generateAndPublishRegistry env dry
          \<lparr>trace = [ReadAdditions],
           logged = [''=== Publishing types-registry ==='',
                     ''New packages have been added: '' @ stringify env added
                       @ '', so publishing a new registry'']\<rparr> = (Inl e, w1)"
      "\<forall>dry. main env dry = (Inl e, w1)"
      "trace w1 = ReadAdditions # evs"
      "\<forall>ev\<in>set evs. \<not> is_publish ev \<and> \<not> is_write_log ev"
  | (reached) added typings patch w1 evs where
      "readAdditions env = Inr added" "added \<noteq> []"
      "readTypings env = Inr typings"
      "fetchLastPatchNumber env packageName = Inr patch"
      "generate env typings (generatePackageJson (patch + 1))
         \<lparr>trace = [ReadAdditions, ReadTypings, FetchLastPatchNumber packageName],
          logged = [''=== Publishing types-registry ==='',
                    ''New packages have been added: '' @ stringify env added
                      @ '', so publishing a new registry'']\<rparr> = (Inr (), w1)"
      "createClient env = Inr ()"
      "\<forall>dry. generateAndPublishRegistry env dry
          \<lparr>trace = [ReadAdditions],
           logged = [''=== Publishing types-registry ==='',
                     ''New packages have been added: '' @ stringify env added
                       @ '', so publishing a new registry'']\<rparr> =
         (clientPublish env (registryOutputPath env) (generatePackageJson (patch + 1)) dry,
          w1\<lparr>trace := trace w1 @
            [CreateClient, Publish (registryOutputPath env) (generatePackageJson (patch + 1)) dry]\<rparr>)"
      "\<forall>dry. main env dry =
         (case clientPublish env (registryOutputPath env) (generatePackageJson (patch + 1)) dry of
            Inl e \<Rightarrow>
              (Inl e, w1\<lparr>trace := trace w1 @
                 [CreateClient, Publish (registryOutputPath env) (generatePackageJson (patch + 1)) dry]\<rparr>)
          | Inr _ \<Rightarrow>
              (writeLog env ''publish-registry.md'' (logged w1),
               w1\<lparr>trace := trace w1 @
                 [CreateClient, Publish (registryOutputPath env) (generatePackageJson (patch + 1)) dry,
                  WriteLog ''publish-registry.md'' (logged w1)]\<rparr>))"
      "trace w1 = ReadAdditions # evs"
      "\<forall>ev\<in>set evs. \<not> is_publish ev \<and> \<not> is_write_log ev"
proof (cases "readAdditions env")
  case (Inl e)
  then show ?thesis by (intro unread [of e]) (simp_all add: main_unfold)
next
  case added: (Inr added)
  show ?thesis
  proof (cases "added = []")
    case True
    then show ?thesis using added by (intro idle) (simp_all add: main_unfold)
  next
    case False
    define w where "w = \<lparr>trace = [ReadAdditions],
           logged = [''=== Publishing types-registry ==='',
                     ''New packages have been added: '' @ stringify env added
                       @ '', so publishing a new registry'']\<rparr>"
    show ?thesis
    proof (cases rule: generateAndPublishRegistry_cases [of env w])
      case (fail e w1 evs)
      show ?thesis
      proof (rule aborted [OF added False, of e w1 evs])
        show "\<forall>dry. generateAndPublishRegistry env dry
          \<lparr>trace = [ReadAdditions],
           logged = [''=== Publishing types-registry ==='',
                     ''New packages have been added: '' @ stringify env added
                       @ '', so publishing a new registry'']\<rparr> = (Inl e, w1)"
          using fail(1) by (simp add: w_def)
        then show "\<forall>dry. main env dry = (Inl e, w1)"
          using added False by (simp add: main_unfold)
        show "trace w1 = ReadAdditions # evs" using fail(2) by (simp add: w_def)
        show "\<forall>ev\<in>set evs. \<not> is_publish ev \<and> \<not> is_write_log ev" by (rule fail(3))
      qed
    next
      case (publish typings patch w1 evs)
      show ?thesis
      proof (rule reached [OF added False publish(1,2) _ publish(4), of w1 evs])
        show "generate env typings (generatePackageJson (patch + 1))
         \<lparr>trace = [ReadAdditions, ReadTypings, FetchLastPatchNumber packageName],
          logged = [''=== Publishing types-registry ==='',
                    ''New packages have been added: '' @ stringify env added
                      @ '', so publishing a new registry'']\<rparr> = (Inr (), w1)"
          using publish(3) by (simp add: w_def)
        show g: "\<forall>dry. generateAndPublishRegistry env dry
          \<lparr>trace = [ReadAdditions],
           logged = [''=== Publishing types-registry ==='',
                     ''New packages have been added: '' @ stringify env added
                       @ '', so publishing a new registry'']\<rparr> =
         (clientPublish env (registryOutputPath env) (generatePackageJson (patch + 1)) dry,
          w1\<lparr>trace := trace w1 @
            [CreateClient, Publish (registryOutputPath env) (generatePackageJson (patch + 1)) dry]\<rparr>)"
          using publish(5) by (simp add: w_def)
        show "\<forall>dry. main env dry =
         (case clientPublish env (registryOutputPath env) (generatePackageJson (patch + 1)) dry of
            Inl e \<Rightarrow>
              (Inl e, w1\<lparr>trace := trace w1 @
                 [CreateClient, Publish (registryOutputPath env) (generatePackageJson (patch + 1)) dry]\<rparr>)
          | Inr _ \<Rightarrow>
              (writeLog env ''publish-registry.md'' (logged w1),
               w1\<lparr>trace := trace w1 @
                 [CreateClient, Publish (registryOutputPath env) (generatePackageJson (patch + 1)) dry,
                  WriteLog ''publish-registry.md'' (logged w1)]\<rparr>))"
          using g added False by (simp add: main_unfold split: sum.splits)
        show "trace w1 = ReadAdditions # evs" using publish(6) by (simp add: w_def)
        show "\<forall>ev\<in>set evs. \<not> is_publish ev \<and> \<not> is_write_log ev" by (rule publish(7))
      qed
    qed
  qed
qed

lemma generate_starts:
  assumes "snd (clearOutputPath env (registryOutputPath env)) = Inr ()"
  shows "\<exists>rest. trace (snd (generate env typings packageJson w)) =
      trace w @ [ClearOutputPath (registryOutputPath env),
                 WriteJson (joinPaths env (registryOutputPath env) ''package.json'') packageJson] @ rest"
proof -
  define dir where "dir = registryOutputPath env"
  define w2 where "w2 = (fold log (fst (clearOutputPath env dir)) w)
      \<lparr>trace := trace w @ [ClearOutputPath dir, WriteJson (joinPaths env dir ''package.json'') packageJson]\<rparr>"
  obtain evs where evs: "trace (snd (generateRegistry env typings w2)) = trace w2 @ evs"
    using generateRegistry_events [of env typings w2] by blast
  obtain r w3 where g: "generateRegistry env typings w2 = (r, w3)"
    by (cases "generateRegistry env typings w2")
  have t3: "trace w3 = trace w @ [ClearOutputPath dir, WriteJson (joinPaths env dir ''package.json'') packageJson] @ evs"
    using evs g by (simp add: w2_def)
  show ?thesis
    using assms g t3 unfolding generate_unfold dir_def [symmetric] Let_def
    by (auto simp: w2_def split: sum.splits)
qed

lemma example_generates:
  "fst (generate example_env example_typings (generatePackageJson (41 + 1))
         \<lparr>trace = [ReadAdditions, ReadTypings, FetchLastPatchNumber packageName],
          logged = [''=== Publishing types-registry ==='',
                    ''New packages have been added: '' @ stringify example_env [''b'']
                      @ '', so publishing a new registry'']\<rparr>) = Inr ()"
  by code_simp

lemma example_publishes:
  "fst (generateAndPublishRegistry example_env False
          \<lparr>trace = [ReadAdditions],
           logged = [''=== Publishing types-registry ==='',
                     ''New packages have been added: '' @ stringify example_env [''b'']
                       @ '', so publishing a new registry'']\<rparr>) = Inr ()"
  by code_simp

lemma failing_aborts:
  "fst (generateAndPublishRegistry failing_env False
          \<lparr>trace = [ReadAdditions],
           logged = [''=== Publishing types-registry ==='',
                     ''New packages have been added: '' @ stringify failing_env [''b'']
                       @ '', so publishing a new registry'']\<rparr>) = Inl (Rejected ''ETIMEDOUT'')"
  by code_simp

lemma example_published:
  "Publish ''output/types-registry'' (generatePackageJson (41 + 1)) False
     \<in> set (trace (snd (main example_env False)))"
  by code_simp

text \<open>
  C8. When \<open>readAdditions\<close> returns an empty collection, \<open>main\<close> calls nothing but
  \<open>readAdditions\<close> and, last, \<open>writeLog\<close> for the run log, which holds the banner and the
  line saying that nothing is published: no output file is cleared or written, no registry
  lookup is made, no client is created and nothing is published.
\<close>

theorem no_additions_only_logs:
  assumes "readAdditions env = Inr []"
  shows "main env dry =
     (writeLog env ''publish-registry.md''
        [''=== Publishing types-registry ==='',
         ''No new packages published, so no need to publish new registry.''],
      \<lparr>trace = [ReadAdditions, WriteLog ''publish-registry.md''
          [''=== Publishing types-registry ==='',
           ''No new packages published, so no need to publish new registry.'']],
       logged = [''=== Publishing types-registry ==='',
           ''No new packages published, so no need to publish new registry.'']\<rparr>)"
  using assms by (simp add: main_unfold)

theorem no_additions_only_logs_witness:
  "main (example_env\<lparr>readAdditions := Inr []\<rparr>) True =
     (Inr (),
      \<lparr>trace = [ReadAdditions, WriteLog ''publish-registry.md''
          [''=== Publishing types-registry ==='',
           ''No new packages published, so no need to publish new registry.'']],
       logged = [''=== Publishing types-registry ==='',
           ''No new packages published, so no need to publish new registry.'']\<rparr>)"
  using no_additions_only_logs [of "example_env\<lparr>readAdditions := Inr []\<rparr>" True]
  by (simp add: example_env_def)

text \<open>
  C9. The run log \<open>publish-registry.md\<close> is written exactly when \<open>main\<close> reaches its last
  statement: when the additions are read and either there are none or generating and
  publishing fulfil, \<open>writeLog\<close> is the last call, made once, with what the logger holds; in
  every other run (reading the additions, generation or publishing rejects) \<open>main\<close>
  rejects and \<open>writeLog\<close> is not called.
\<close>

theorem log_written_iff_reached:
  "((\<exists>added. readAdditions env = Inr added \<and>
       (added = [] \<or>
        fst (generateAndPublishRegistry env dry
          \<lparr>trace = [ReadAdditions],
           logged = [''=== Publishing types-registry ==='',
                     ''New packages have been added: '' @ stringify env added
                       @ '', so publishing a new registry'']\<rparr>) = Inr ())) \<longrightarrow>
      (\<exists>evs. trace (snd (main env dry)) =
           evs @ [WriteLog ''publish-registry.md'' (logged (snd (main env dry)))] \<and>
         (\<forall>ev\<in>set evs. \<not> is_write_log ev))) \<and>
   (\<not> (\<exists>added. readAdditions env = Inr added \<and>
       (added = [] \<or>
        fst (generateAndPublishRegistry env dry
          \<lparr>trace = [ReadAdditions],
           logged = [''=== Publishing types-registry ==='',
                     ''New packages have been added: '' @ stringify env added
                       @ '', so publishing a new registry'']\<rparr>) = Inr ())) \<longrightarrow>
      (\<exists>e. fst (main env dry) = Inl e) \<and>
      (\<forall>ev\<in>set (trace (snd (main env dry))). \<not> is_write_log ev))"
proof (cases rule: main_cases [of env])
  case (unread e)
  then show ?thesis by simp
next
  case idle
  then show ?thesis by simp
next
  case (aborted added e w1 evs)
  then show ?thesis by simp
next
  case (reached added typings patch w1 evs)
  let ?p = "clientPublish env (registryOutputPath env) (generatePackageJson (patch + 1)) dry"
  show ?thesis
  proof (cases ?p)
    case (Inl e)
    then show ?thesis using reached by simp
  next
    case (Inr u)
    then have m: "main env dry =
        (writeLog env ''publish-registry.md'' (logged w1),
         w1\<lparr>trace := trace w1 @
           [CreateClient, Publish (registryOutputPath env) (generatePackageJson (patch + 1)) dry,
            WriteLog ''publish-registry.md'' (logged w1)]\<rparr>)"
      using reached(8) by simp
    have "trace (snd (main env dry)) =
        (trace w1 @ [CreateClient, Publish (registryOutputPath env) (generatePackageJson (patch + 1)) dry])
          @ [WriteLog ''publish-registry.md'' (logged (snd (main env dry)))]"
      unfolding m by simp
    moreover have "\<forall>ev\<in>set (trace w1 @
        [CreateClient, Publish (registryOutputPath env) (generatePackageJson (patch + 1)) dry]).
          \<not> is_write_log ev"
      using reached(9,10) by simp
    ultimately have "\<exists>evs. trace (snd (main env dry)) =
           evs @ [WriteLog ''publish-registry.md'' (logged (snd (main env dry)))] \<and>
         (\<forall>ev\<in>set evs. \<not> is_write_log ev)" by blast
    moreover have "fst (generateAndPublishRegistry env dry
          \<lparr>trace = [ReadAdditions],
           logged = [''=== Publishing types-registry ==='',
                     ''New packages have been added: '' @ stringify env added
                       @ '', so publishing a new registry'']\<rparr>) = Inr ()"
      using reached(7) Inr by simp
    ultimately show ?thesis using reached(1) by auto
  qed
qed

theorem log_written_iff_reached_witness:
  "(\<exists>evs. trace (snd (main example_env False)) =
      evs @ [WriteLog ''publish-registry.md'' (logged (snd (main example_env False)))]) \<and>
   (\<exists>e. fst (main failing_env False) = Inl e) \<and>
   filter is_write_log (trace (snd (main failing_env False))) = []"
proof -
  have r: "readAdditions example_env = Inr [''b'']" "readAdditions failing_env = Inr [''b'']"
    by (simp_all add: example_env_def failing_env_def)
  have "\<exists>evs. trace (snd (main example_env False)) =
      evs @ [WriteLog ''publish-registry.md'' (logged (snd (main example_env False)))]"
    using log_written_iff_reached [of example_env False] r(1) example_publishes by blast
  moreover have "\<not> (\<exists>added. readAdditions failing_env = Inr added \<and>
       (added = [] \<or>
        fst (generateAndPublishRegistry failing_env False
          \<lparr>trace = [ReadAdditions],
           logged = [''=== Publishing types-registry ==='',
                     ''New packages have been added: '' @ stringify failing_env added
                       @ '', so publishing a new registry'']\<rparr>) = Inr ()))"
    using r(2) failing_aborts by auto
  then have "(\<exists>e. fst (main failing_env False) = Inl e) \<and>
      (\<forall>ev\<in>set (trace (snd (main failing_env False))). \<not> is_write_log ev)"
    using log_written_iff_reached [of failing_env False] by blast
  ultimately show ?thesis by (simp add: filter_empty_conv)
qed

subsection \<open>The version of the manifest\<close>

lemma digit_of_nth: "0 \<le> d \<Longrightarrow> d < 10 \<Longrightarrow> digit_of (''0123456789'' ! nat d) = Some d"
proof -
  assume "0 \<le> d" "d < 10"
  then have "d \<in> {0, 1, 2, 3, 4, 5, 6, 7, 8, 9}" by (simp; presburger)
  then show ?thesis by (auto simp: digit_of_def)
qed

lemma parse_digits_append:
  "parse_digits acc (xs @ ys) = (case parse_digits acc xs of None \<Rightarrow> None | Some v \<Rightarrow> parse_digits v ys)"
  by (induction xs arbitrary: acc) (auto split: option.splits)

lemma parse_digits_digits: "0 \<le> n \<Longrightarrow> parse_digits acc (digits n) = Some (acc * 10 ^ length (digits n) + n)"
proof (induction n arbitrary: acc rule: digits.induct)
  case (1 n)
  show ?case
  proof (cases "n < 10")
    case True
    then show ?thesis using "1.prems" by (subst (1 2) digits.simps) (simp add: digit_of_nth)
  next
    case False
    have m: "0 \<le> n mod 10" "n mod 10 < 10" by simp_all
    have d: "0 \<le> n div 10" using "1.prems" by simp
    have ih: "parse_digits acc (digits (n div 10)) = Some (acc * 10 ^ length (digits (n div 10)) + n div 10)"
      using "1.IH" [OF False d] .
    have "10 * (n div 10) + n mod 10 = n" by simp
    then have e: "10 * (acc * 10 ^ length (digits (n div 10)) + n div 10) + n mod 10
        = acc * 10 ^ Suc (length (digits (n div 10))) + n"
      by (simp add: algebra_simps)
    show ?thesis
      using False ih e by (subst (1 2) digits.simps) (simp add: parse_digits_append digit_of_nth [OF m])
  qed
qed

lemma digits_nonempty: "digits n \<noteq> []"
  by (subst digits.simps) simp

lemma hd_digits: "0 < n \<Longrightarrow> hd (digits n) \<noteq> CHR ''0''"
proof (induction n rule: digits.induct)
  case (1 n)
  show ?case
  proof (cases "n < 10")
    case True
    then have "n \<in> {1, 2, 3, 4, 5, 6, 7, 8, 9}" using "1.prems" by (simp; presburger)
    then show ?thesis by (subst digits.simps) auto
  next
    case False
    then have "0 < n div 10" by simp
    then show ?thesis using "1.IH" [OF False] False digits_nonempty [of "n div 10"]
      by (subst digits.simps) simp
  qed
qed

lemma parse_nat_digits: "0 \<le> n \<Longrightarrow> parse_nat (digits n) = Some n"
proof (cases "n = 0")
  case True
  then show ?thesis by (simp add: parse_nat_def digits.simps digit_of_def)
next
  case False
  assume "0 \<le> n"
  then have "0 < n" using False by simp
  then show ?thesis
    using hd_digits [of n] digits_nonempty [of n] parse_digits_digits [of n 0]
    by (simp add: parse_nat_def)
qed

lemma hd_digits_not_minus: "0 \<le> n \<Longrightarrow> hd (digits n) \<noteq> CHR ''-''"
proof (induction n rule: digits.induct)
  case (1 n)
  show ?case
  proof (cases "n < 10")
    case True
    then have "n \<in> {0, 1, 2, 3, 4, 5, 6, 7, 8, 9}" using "1.prems" by (simp; presburger)
    then show ?thesis by (subst digits.simps) auto
  next
    case False
    then have "0 \<le> n div 10" using "1.prems" by simp
    then show ?thesis using "1.IH" [OF False] False digits_nonempty [of "n div 10"]
      by (subst digits.simps) simp
  qed
qed

lemma parse_int_number_to_string:
  assumes "\<bar>i\<bar> \<le> 2 ^ 53"
  shows "parse_int (number_to_string i) = Some i"
proof (cases "i < 0")
  case True
  then have "number_to_string i = CHR ''-'' # digits (- i)" using assms by (simp add: number_to_string_def round_double_def)
  then show ?thesis using True parse_nat_digits [of "- i"] by (simp add: parse_int_def)
next
  case False
  then have n: "number_to_string i = digits i" using assms by (simp add: number_to_string_def round_double_def)
  obtain c r where cr: "digits i = c # r" using digits_nonempty [of i] by (cases "digits i") auto
  then have "c \<noteq> CHR ''-''" using hd_digits_not_minus [of i] False by simp
  then show ?thesis using n cr parse_nat_digits [of i] False by (simp add: parse_int_def)
qed

text \<open>
  C6, amended. When there are additions, for every \<open>lastPatch\<close> returned by
  \<open>fetchLastPatchNumber("types-registry")\<close> with \<open>|lastPatch + 1| \<le> 2^53\<close>, the manifest of
  the run has the version \<open>"0.1."\<close> followed by the decimal numeral of \<open>lastPatch + 1\<close>
  (the string that reads as that integer): it is the manifest written to \<open>package.json\<close>
  (the fifth call of the run, once the output path is cleared) and the manifest of every
  publish call.
\<close>

theorem manifest_version:
  assumes "readAdditions env = Inr added" and "added \<noteq> []"
    and "readTypings env = Inr typings"
    and "fetchLastPatchNumber env packageName = Inr lastPatch"
    and "\<bar>lastPatch + 1\<bar> \<le> 2 ^ 53"
  shows "\<exists>props numeral.
      generatePackageJson (lastPatch + 1) = JObj props \<and>
      map_of props ''version'' = Some (JStr (''0.1.'' @ numeral)) \<and>
      parse_int numeral = Some (lastPatch + 1) \<and>
      (snd (clearOutputPath env (registryOutputPath env)) = Inr () \<longrightarrow>
         take 5 (trace (snd (main env dry))) =
           [ReadAdditions, ReadTypings, FetchLastPatchNumber packageName,
            ClearOutputPath (registryOutputPath env),
            WriteJson (joinPaths env (registryOutputPath env) ''package.json'') (JObj props)]) \<and>
      (\<forall>dir packageJson d. Publish dir packageJson d \<in> set (trace (snd (main env dry))) \<longrightarrow>
         packageJson = JObj props)"
proof -
  obtain props where props: "generatePackageJson (lastPatch + 1) = JObj props"
    and version: "map_of props ''version'' = Some (JStr (''0.1.'' @ number_to_string (lastPatch + 1)))"
    by (simp add: generatePackageJson_def)
  have reads: "parse_int (number_to_string (lastPatch + 1)) = Some (lastPatch + 1)"
    using assms(5) by (rule parse_int_number_to_string)
  define w where "w = \<lparr>trace = [ReadAdditions],
           logged = [''=== Publishing types-registry ==='',
                     ''New packages have been added: '' @ stringify env added
                       @ '', so publishing a new registry'']\<rparr>"
  define w0 where "w0 = w\<lparr>trace := trace w @ [ReadTypings, FetchLastPatchNumber packageName]\<rparr>"
  have first: "take 5 (trace (snd (main env dry))) =
           [ReadAdditions, ReadTypings, FetchLastPatchNumber packageName,
            ClearOutputPath (registryOutputPath env),
            WriteJson (joinPaths env (registryOutputPath env) ''package.json'') (JObj props)]"
    if clear: "snd (clearOutputPath env (registryOutputPath env)) = Inr ()"
  proof -
    obtain r w1 where g: "generate env typings (JObj props) w0 = (r, w1)"
      by (cases "generate env typings (JObj props) w0")
    obtain rest where rest: "trace w1 = trace w0 @
        [ClearOutputPath (registryOutputPath env),
         WriteJson (joinPaths env (registryOutputPath env) ''package.json'') (JObj props)] @ rest"
      using generate_starts [OF clear, of typings "JObj props" w0] g by auto
    have "\<exists>more. trace (snd (generateAndPublishRegistry env dry w)) = trace w1 @ more"
      using g assms(3,4)
      by (auto simp: generateAndPublishRegistry_unfold props w0_def [symmetric] split: sum.splits)
    moreover have "\<exists>more. trace (snd (main env dry)) =
        trace (snd (generateAndPublishRegistry env dry w)) @ more"
      using assms(1,2) by (auto simp: main_unfold w_def split: sum.splits prod.splits)
    ultimately show ?thesis using rest by (auto simp: w0_def w_def)
  qed
  have pub: "packageJson = JObj props"
    if "Publish dir packageJson d \<in> set (trace (snd (main env dry)))" for dir packageJson d
  proof (cases rule: main_cases [of env])
    case (unread e)
    then show ?thesis using that by simp
  next
    case idle
    then show ?thesis using that by simp
  next
    case (aborted added e w1 evs)
    then show ?thesis using that by auto
  next
    case (reached added' typings' patch w1 evs)
    have "patch = lastPatch" using reached(4) assms(4) by simp
    moreover have "Publish dir packageJson d \<notin> set evs" using reached(10) by force
    ultimately show ?thesis using that reached(8,9) props
      by (auto split: sum.splits)
  qed
  show ?thesis using props version reads first pub by blast
qed

theorem manifest_version_witness:
  "\<exists>props.
      generatePackageJson (41 + 1) = JObj props \<and>
      map_of props ''version'' = Some (JStr ''0.1.42'') \<and>
      parse_int ''42'' = Some (41 + 1) \<and>
      take 5 (trace (snd (main example_env False))) =
           [ReadAdditions, ReadTypings, FetchLastPatchNumber ''types-registry'',
            ClearOutputPath ''output/types-registry'',
            WriteJson ''output/types-registry/package.json'' (JObj props)]"
proof -
  have n: "number_to_string (41 + 1) = ''42''" by code_simp
  have h: "readAdditions example_env = Inr [''b'']" "[''b''] \<noteq> ([] :: string list)"
    "readTypings example_env = Inr example_typings"
    "fetchLastPatchNumber example_env packageName = Inr 41"
    "\<bar>41 + 1\<bar> \<le> (2 ^ 53 :: int)"
    "snd (clearOutputPath example_env (registryOutputPath example_env)) = Inr ()"
    "registryOutputPath example_env = ''output/types-registry''"
    by (simp_all add: example_env_def registryOutputPath_def packageName_def)
  obtain props numeral where p:
      "generatePackageJson (41 + 1) = JObj props"
      "map_of props ''version'' = Some (JStr (''0.1.'' @ numeral))"
      "parse_int numeral = Some (41 + 1)"
      "take 5 (trace (snd (main example_env False))) =
           [ReadAdditions, ReadTypings, FetchLastPatchNumber packageName,
            ClearOutputPath (registryOutputPath example_env),
            WriteJson (joinPaths example_env (registryOutputPath example_env) ''package.json'') (JObj props)]"
    using manifest_version [OF h(1-5), of False] h(6) by auto
  have "map_of props ''version'' = Some (JStr (''0.1.'' @ number_to_string (41 + 1)))"
    using p(1) by (auto simp: generatePackageJson_def)
  then have "numeral = ''42''" using p(2) n by simp
  then show ?thesis using p h(7) by (auto simp: packageName_def example_env_def)
qed

text \<open>
  The claim, as it is stated for every integer, fails at \<open>lastPatch = 2^53\<close>, which is a
  double: the sum \<open>9007199254740992 + 1\<close> rounds to \<open>9007199254740992\<close>, and the version of
  the manifest is \<open>0.1.9007199254740992\<close>, not \<open>0.1.9007199254740993\<close>.
\<close>

theorem manifest_version_counterexample:
  "map_of (properties (generatePackageJson (9007199254740992 + 1))) ''version''
     = Some (JStr ''0.1.9007199254740992'')"
  by code_simp

text \<open>
  C5. A publish call is made only after generation has fulfilled: when the trace of a run
  holds a publish call, then \<open>generate\<close> has fulfilled, that is clearing the output path
  and writing \<open>package.json\<close>, \<open>index.json\<close> and \<open>README.md\<close> have all fulfilled, and these
  calls come before the creation of the client and the one publish call, which is followed
  by the writing of the log at most. So when any step of generation rejects, no publish call
  is made.
\<close>

theorem publish_only_after_generation:
  assumes "Publish dir packageJson d \<in> set (trace (snd (main env dry)))"
  shows "\<exists>added typings patch w1 registry w2 evs rest.
      readAdditions env = Inr added \<and> added \<noteq> [] \<and>
      readTypings env = Inr typings \<and>
      fetchLastPatchNumber env packageName = Inr patch \<and>
      dir = registryOutputPath env \<and> packageJson = generatePackageJson (patch + 1) \<and> d = dry \<and>
      generate env typings packageJson
         \<lparr>trace = [ReadAdditions, ReadTypings, FetchLastPatchNumber packageName],
          logged = [''=== Publishing types-registry ==='',
                    ''New packages have been added: '' @ stringify env added
                      @ '', so publishing a new registry'']\<rparr> = (Inr (), w1) \<and>
      snd (clearOutputPath env dir) = Inr () \<and>
      writeJson env (joinPaths env dir ''package.json'') packageJson = Inr () \<and>
      fst (generateRegistry env typings w2) = Inr registry \<and>
      writeJson env (joinPaths env dir ''index.json'') registry = Inr () \<and>
      writeJson env (joinPaths env dir ''README.md'') (JStr readme) = Inr () \<and>
      trace (snd (main env dry)) =
        [ReadAdditions, ReadTypings, FetchLastPatchNumber packageName,
         ClearOutputPath dir, WriteJson (joinPaths env dir ''package.json'') packageJson] @ evs @
        [WriteJson (joinPaths env dir ''index.json'') registry,
         WriteJson (joinPaths env dir ''README.md'') (JStr readme),
         CreateClient, Publish dir packageJson dry] @ rest \<and>
      (\<forall>ev\<in>set evs. is_fetch ev) \<and> (\<forall>ev\<in>set rest. is_write_log ev)"
proof (cases rule: main_cases [of env])
  case (unread e)
  then show ?thesis using assms by simp
next
  case idle
  then show ?thesis using assms by simp
next
  case (aborted added e w1 evs)
  then show ?thesis using assms by auto
next
  case (reached added typings patch w1 evs0)
  let ?dir = "registryOutputPath env"
  let ?pj = "generatePackageJson (patch + 1)"
  have notin: "Publish dir packageJson d \<notin> set evs0" using reached(10) by force
  obtain rest where tr: "trace (snd (main env dry)) = trace w1 @ [CreateClient, Publish ?dir ?pj dry] @ rest"
    and rest: "\<forall>ev\<in>set rest. is_write_log ev"
  proof (cases "clientPublish env ?dir ?pj dry")
    case (Inl e)
    show ?thesis by (rule that [of "[]"]) (use reached(8) Inl in simp_all)
  next
    case (Inr u)
    show ?thesis
      by (rule that [of "[WriteLog ''publish-registry.md'' (logged w1)]"]) (use reached(8) Inr in simp_all)
  qed
  have "Publish dir packageJson d \<in> set ([CreateClient, Publish ?dir ?pj dry] @ rest)"
    using assms notin reached(9) unfolding tr by auto
  then have eq: "dir = ?dir" "packageJson = ?pj" "d = dry"
    using rest by auto
  obtain registry w2 evs where g:
      "snd (clearOutputPath env ?dir) = Inr ()"
      "writeJson env (joinPaths env ?dir ''package.json'') ?pj = Inr ()"
      "fst (generateRegistry env typings w2) = Inr registry"
      "writeJson env (joinPaths env ?dir ''index.json'') registry = Inr ()"
      "writeJson env (joinPaths env ?dir ''README.md'') (JStr readme) = Inr ()"
      "trace w1 = [ReadAdditions, ReadTypings, FetchLastPatchNumber packageName] @
        [ClearOutputPath ?dir, WriteJson (joinPaths env ?dir ''package.json'') ?pj] @ evs @
        [WriteJson (joinPaths env ?dir ''index.json'') registry,
         WriteJson (joinPaths env ?dir ''README.md'') (JStr readme)]"
      "\<forall>ev\<in>set evs. is_fetch ev"
    using generate_success [OF reached(5)] by auto
  have "trace (snd (main env dry)) =
        [ReadAdditions, ReadTypings, FetchLastPatchNumber packageName,
         ClearOutputPath ?dir, WriteJson (joinPaths env ?dir ''package.json'') ?pj] @ evs @
        [WriteJson (joinPaths env ?dir ''index.json'') registry,
         WriteJson (joinPaths env ?dir ''README.md'') (JStr readme),
         CreateClient, Publish ?dir ?pj dry] @ rest"
    unfolding tr g(6) by simp
  then show ?thesis
    using reached(1-5) g(1-5,7) rest unfolding eq
    by (intro exI [of _ added] exI [of _ typings] exI [of _ patch] exI [of _ w1]
          exI [of _ registry] exI [of _ w2] exI [of _ evs] exI [of _ rest]) simp
qed

theorem publish_only_after_generation_witness:
  "Publish ''output/types-registry'' (generatePackageJson (41 + 1)) False
     \<in> set (trace (snd (main example_env False))) \<and>
   (\<exists>registry evs rest.
      writeJson example_env ''output/types-registry/index.json'' registry = Inr () \<and>
      trace (snd (main example_env False)) =
        [ReadAdditions, ReadTypings, FetchLastPatchNumber ''types-registry'',
         ClearOutputPath ''output/types-registry'',
         WriteJson ''output/types-registry/package.json'' (generatePackageJson (41 + 1))] @ evs @
        [WriteJson ''output/types-registry/index.json'' registry,
         WriteJson ''output/types-registry/README.md'' (JStr readme),
         CreateClient,
         Publish ''output/types-registry'' (generatePackageJson (41 + 1)) False] @ rest)"
proof
  show "Publish ''output/types-registry'' (generatePackageJson (41 + 1)) False
     \<in> set (trace (snd (main example_env False)))"
    by (rule example_published)
  have paths: "registryOutputPath example_env = ''output/types-registry''"
    "joinPaths example_env ''output/types-registry'' ''package.json'' = ''output/types-registry/package.json''"
    "joinPaths example_env ''output/types-registry'' ''index.json'' = ''output/types-registry/index.json''"
    "joinPaths example_env ''output/types-registry'' ''README.md'' = ''output/types-registry/README.md''"
    "packageName = ''types-registry''"
    by (simp_all add: example_env_def registryOutputPath_def packageName_def)
  show "\<exists>registry evs rest.
      writeJson example_env ''output/types-registry/index.json'' registry = Inr () \<and>
      trace (snd (main example_env False)) =
        [ReadAdditions, ReadTypings, FetchLastPatchNumber ''types-registry'',
         ClearOutputPath ''output/types-registry'',
         WriteJson ''output/types-registry/package.json'' (generatePackageJson (41 + 1))] @ evs @
        [WriteJson ''output/types-registry/index.json'' registry,
         WriteJson ''output/types-registry/README.md'' (JStr readme),
         CreateClient,
         Publish ''output/types-registry'' (generatePackageJson (41 + 1)) False] @ rest"
    using publish_only_after_generation [OF example_published] unfolding paths by blast
qed

lemma dry_run_calls:
  "(\<forall>dir packageJson d. Publish dir packageJson d \<in> set (trace (snd (main env True))) \<longrightarrow> d = True) \<and>
   takeWhile (\<lambda>ev. \<not> is_publish ev) (trace (snd (main env True))) =
     takeWhile (\<lambda>ev. \<not> is_publish ev) (trace (snd (main env False))) \<and>
   ((\<exists>ev\<in>set (trace (snd (main env True))). is_publish ev) \<longleftrightarrow>
    (\<exists>ev\<in>set (trace (snd (main env False))). is_publish ev)) \<and>
   (\<forall>added typings patch w1.
      readAdditions env = Inr added \<and> added \<noteq> [] \<and>
      readTypings env = Inr typings \<and>
      fetchLastPatchNumber env packageName = Inr patch \<and>
      generate env typings (generatePackageJson (patch + 1))
         \<lparr>trace = [ReadAdditions, ReadTypings, FetchLastPatchNumber packageName],
          logged = [''=== Publishing types-registry ==='',
                    ''New packages have been added: '' @ stringify env added
                      @ '', so publishing a new registry'']\<rparr> = (Inr (), w1) \<and>
      createClient env = Inr () \<longrightarrow>
      Publish (registryOutputPath env) (generatePackageJson (patch + 1)) True
        \<in> set (trace (snd (main env True))))"
proof (cases rule: main_cases [of env])
  case (unread e)
  then show ?thesis by simp
next
  case idle
  then show ?thesis by simp
next
  case (aborted added e w1 evs)
  have nopub: "\<forall>ev\<in>set (trace w1). \<not> is_publish ev" using aborted(5,6) by simp
  have no: "\<not> (readTypings env = Inr typings \<and>
      fetchLastPatchNumber env packageName = Inr patch \<and>
      generate env typings (generatePackageJson (patch + 1))
         \<lparr>trace = [ReadAdditions, ReadTypings, FetchLastPatchNumber packageName],
          logged = [''=== Publishing types-registry ==='',
                    ''New packages have been added: '' @ stringify env added
                      @ '', so publishing a new registry'']\<rparr> = (Inr (), w1') \<and>
      createClient env = Inr ())" for typings patch w1'
  proof
    assume a: "readTypings env = Inr typings \<and>
      fetchLastPatchNumber env packageName = Inr patch \<and>
      generate env typings (generatePackageJson (patch + 1))
         \<lparr>trace = [ReadAdditions, ReadTypings, FetchLastPatchNumber packageName],
          logged = [''=== Publishing types-registry ==='',
                    ''New packages have been added: '' @ stringify env added
                      @ '', so publishing a new registry'']\<rparr> = (Inr (), w1') \<and>
      createClient env = Inr ()"
    have "snd (generateAndPublishRegistry env True
          \<lparr>trace = [ReadAdditions],
           logged = [''=== Publishing types-registry ==='',
                     ''New packages have been added: '' @ stringify env added
                       @ '', so publishing a new registry'']\<rparr>) =
        w1'\<lparr>trace := trace w1' @
          [CreateClient, Publish (registryOutputPath env) (generatePackageJson (patch + 1)) True]\<rparr>"
      using a by (simp add: generateAndPublishRegistry_unfold)
    then have "trace w1 = trace w1' @
          [CreateClient, Publish (registryOutputPath env) (generatePackageJson (patch + 1)) True]"
      using aborted(3) by simp
    then have "Publish (registryOutputPath env) (generatePackageJson (patch + 1)) True \<in> set (trace w1)"
      by simp
    then show False using nopub by force
  qed
  have 1: "\<forall>dir packageJson d. Publish dir packageJson d \<in> set (trace (snd (main env True))) \<longrightarrow> d = True"
    using aborted(4) nopub by force
  have 2: "takeWhile (\<lambda>ev. \<not> is_publish ev) (trace (snd (main env True))) =
     takeWhile (\<lambda>ev. \<not> is_publish ev) (trace (snd (main env False)))"
    using aborted(4) by simp
  have 3: "(\<exists>ev\<in>set (trace (snd (main env True))). is_publish ev) \<longleftrightarrow>
    (\<exists>ev\<in>set (trace (snd (main env False))). is_publish ev)"
    using aborted(4) by simp
  have 4: "\<forall>added typings patch w1.
      readAdditions env = Inr added \<and> added \<noteq> [] \<and>
      readTypings env = Inr typings \<and>
      fetchLastPatchNumber env packageName = Inr patch \<and>
      generate env typings (generatePackageJson (patch + 1))
         \<lparr>trace = [ReadAdditions, ReadTypings, FetchLastPatchNumber packageName],
          logged = [''=== Publishing types-registry ==='',
                    ''New packages have been added: '' @ stringify env added
                      @ '', so publishing a new registry'']\<rparr> = (Inr (), w1) \<and>
      createClient env = Inr () \<longrightarrow>
      Publish (registryOutputPath env) (generatePackageJson (patch + 1)) True
        \<in> set (trace (snd (main env True)))"
  proof (intro allI impI)
    fix added' typings patch w1'
    assume a: "readAdditions env = Inr added' \<and> added' \<noteq> [] \<and>
      readTypings env = Inr typings \<and>
      fetchLastPatchNumber env packageName = Inr patch \<and>
      generate env typings (generatePackageJson (patch + 1))
         \<lparr>trace = [ReadAdditions, ReadTypings, FetchLastPatchNumber packageName],
          logged = [''=== Publishing types-registry ==='',
                    ''New packages have been added: '' @ stringify env added'
                      @ '', so publishing a new registry'']\<rparr> = (Inr (), w1') \<and>
      createClient env = Inr ()"
    then have "added' = added" using aborted(1) by simp
    then have False using no [of typings patch w1'] a by simp
    then show "Publish (registryOutputPath env) (generatePackageJson (patch + 1)) True
        \<in> set (trace (snd (main env True)))" by simp
  qed
  show ?thesis using 1 2 3 4 by blast
next
  case (reached added typings patch w1 evs)
  let ?dir = "registryOutputPath env"
  let ?pj = "generatePackageJson (patch + 1)"
  have q: "\<forall>ev\<in>set (trace w1 @ [CreateClient]). \<not> is_publish ev" using reached(9,10) by simp
  have tr: "\<exists>rest. trace (snd (main env dry)) = (trace w1 @ [CreateClient]) @ Publish ?dir ?pj dry # rest \<and>
      (\<forall>ev\<in>set rest. \<not> is_publish ev)" for dry
    using reached(8) by (cases "clientPublish env ?dir ?pj dry") auto
  have tw: "takeWhile (\<lambda>ev. \<not> is_publish ev) (trace (snd (main env dry))) = trace w1 @ [CreateClient]"
    for dry
  proof -
    obtain rest where "trace (snd (main env dry)) = (trace w1 @ [CreateClient]) @ Publish ?dir ?pj dry # rest"
      using tr [of dry] by blast
    then show ?thesis using q by (simp add: takeWhile_tail)
  qed
  have 1: "\<forall>dir packageJson d. Publish dir packageJson d \<in> set (trace (snd (main env True))) \<longrightarrow> d = True"
  proof (intro allI impI)
    fix dir packageJson d
    assume a: "Publish dir packageJson d \<in> set (trace (snd (main env True)))"
    obtain rest where r: "trace (snd (main env True)) = (trace w1 @ [CreateClient]) @ Publish ?dir ?pj True # rest"
      "\<forall>ev\<in>set rest. \<not> is_publish ev"
      using tr [of True] by blast
    have "Publish dir packageJson d \<notin> set (trace w1 @ [CreateClient])" using q by force
    moreover have "Publish dir packageJson d \<notin> set rest" using r(2) by force
    ultimately show "d = True" using a unfolding r(1) by auto
  qed
  have 2: "takeWhile (\<lambda>ev. \<not> is_publish ev) (trace (snd (main env True))) =
     takeWhile (\<lambda>ev. \<not> is_publish ev) (trace (snd (main env False)))"
    using tw [of True] tw [of False] by simp
  have p: "Publish ?dir ?pj dry \<in> set (trace (snd (main env dry)))" for dry
    using tr [of dry] by auto
  have 3: "(\<exists>ev\<in>set (trace (snd (main env True))). is_publish ev) \<longleftrightarrow>
    (\<exists>ev\<in>set (trace (snd (main env False))). is_publish ev)"
    using p [of True] p [of False] by (metis is_publish.simps(1))
  have 4: "\<forall>added typings patch w1.
      readAdditions env = Inr added \<and> added \<noteq> [] \<and>
      readTypings env = Inr typings \<and>
      fetchLastPatchNumber env packageName = Inr patch \<and>
      generate env typings (generatePackageJson (patch + 1))
         \<lparr>trace = [ReadAdditions, ReadTypings, FetchLastPatchNumber packageName],
          logged = [''=== Publishing types-registry ==='',
                    ''New packages have been added: '' @ stringify env added
                      @ '', so publishing a new registry'']\<rparr> = (Inr (), w1) \<and>
      createClient env = Inr () \<longrightarrow>
      Publish (registryOutputPath env) (generatePackageJson (patch + 1)) True
        \<in> set (trace (snd (main env True)))"
    using p [of True] reached(4) by auto
  show ?thesis using 1 2 3 4 by blast
qed


lemma main_generates:
  assumes "readAdditions env = Inr added \<and> added \<noteq> [] \<and>
      readTypings env = Inr typings \<and>
      fetchLastPatchNumber env packageName = Inr patch \<and>
      snd (clearOutputPath env (registryOutputPath env)) = Inr () \<and>
      writeJson env (joinPaths env (registryOutputPath env) ''package.json'')
        (generatePackageJson (patch + 1)) = Inr () \<and>
      fst (generateRegistry env typings
          \<lparr>trace = [ReadAdditions, ReadTypings, FetchLastPatchNumber packageName,
                    ClearOutputPath (registryOutputPath env),
                    WriteJson (joinPaths env (registryOutputPath env) ''package.json'')
                      (generatePackageJson (patch + 1))],
           logged = [''=== Publishing types-registry ==='',
                     ''New packages have been added: '' @ stringify env added
                       @ '', so publishing a new registry'']
                    @ fst (clearOutputPath env (registryOutputPath env))\<rparr>) = Inr registry \<and>
      writeJson env (joinPaths env (registryOutputPath env) ''index.json'') registry = Inr () \<and>
      writeJson env (joinPaths env (registryOutputPath env) ''README.md'') (JStr readme) = Inr () \<and>
      createClient env = Inr ()"
  shows "(\<exists>evs rest.
         trace (snd (main env dry)) =
           [ReadAdditions, ReadTypings, FetchLastPatchNumber packageName,
            ClearOutputPath (registryOutputPath env),
            WriteJson (joinPaths env (registryOutputPath env) ''package.json'')
              (generatePackageJson (patch + 1))] @ evs @
           [WriteJson (joinPaths env (registryOutputPath env) ''index.json'') registry,
            WriteJson (joinPaths env (registryOutputPath env) ''README.md'') (JStr readme),
            CreateClient,
            Publish (registryOutputPath env) (generatePackageJson (patch + 1)) dry] @ rest \<and>
         (\<forall>ev\<in>set evs. is_fetch ev) \<and> (\<forall>ev\<in>set rest. is_write_log ev))"
proof -
  let ?dir = "registryOutputPath env"
  let ?pj = "generatePackageJson (patch + 1)"
  define w where "w = \<lparr>trace = [ReadAdditions],
           logged = [''=== Publishing types-registry ==='',
                     ''New packages have been added: '' @ stringify env added
                       @ '', so publishing a new registry'']\<rparr>"
  define w0 where "w0 = w\<lparr>trace := trace w @ [ReadTypings, FetchLastPatchNumber packageName]\<rparr>"
  define w2 where "w2 = (fold log (fst (clearOutputPath env ?dir)) w0)
      \<lparr>trace := trace w0 @ [ClearOutputPath ?dir, WriteJson (joinPaths env ?dir ''package.json'') ?pj]\<rparr>"
  have w2: "w2 = \<lparr>trace = [ReadAdditions, ReadTypings, FetchLastPatchNumber packageName,
                    ClearOutputPath (registryOutputPath env),
                    WriteJson (joinPaths env (registryOutputPath env) ''package.json'')
                      (generatePackageJson (patch + 1))],
           logged = [''=== Publishing types-registry ==='',
                     ''New packages have been added: '' @ stringify env added
                       @ '', so publishing a new registry'']
                    @ fst (clearOutputPath env (registryOutputPath env))\<rparr>"
    by (simp add: w2_def w0_def w_def)
  obtain r w3 where g: "generateRegistry env typings w2 = (r, w3)"
    by (cases "generateRegistry env typings w2")
  have r: "r = Inr registry" using assms g unfolding w2 [symmetric] by simp
  obtain evs where evs: "trace w3 = trace w2 @ evs" "\<forall>ev\<in>set evs. is_fetch ev"
    using generateRegistry_events [of env typings w2] g by auto
  define w5 where "w5 = w3\<lparr>trace := trace w3 @
      [WriteJson (joinPaths env ?dir ''index.json'') registry,
       WriteJson (joinPaths env ?dir ''README.md'') (JStr readme)]\<rparr>"
  have oks: "snd (clearOutputPath env ?dir) = Inr ()"
    "writeJson env (joinPaths env ?dir ''package.json'') ?pj = Inr ()"
    "writeJson env (joinPaths env ?dir ''index.json'') registry = Inr ()"
    "writeJson env (joinPaths env ?dir ''README.md'') (JStr readme) = Inr ()"
    using assms by simp_all
  have reads: "readAdditions env = Inr added" "added \<noteq> []" "readTypings env = Inr typings"
    "fetchLastPatchNumber env packageName = Inr patch" "createClient env = Inr ()"
    using assms by simp_all
  have g': "generateRegistry env typings ((fold log (fst (clearOutputPath env ?dir)) w0)
      \<lparr>trace := trace w0 @ [ClearOutputPath ?dir, WriteJson (joinPaths env ?dir ''package.json'') ?pj]\<rparr>)
      = (Inr registry, w3)"
    using g r by (simp add: w2_def)
  have gen: "generate env typings ?pj w0 = (Inr (), w5)"
    unfolding generate_unfold Let_def by (simp add: oks g' w5_def)
  have gp: "generateAndPublishRegistry env dry w =
      (clientPublish env ?dir ?pj dry,
       w5\<lparr>trace := trace w5 @ [CreateClient, Publish ?dir ?pj dry]\<rparr>)"
    using reads gen by (simp add: generateAndPublishRegistry_unfold w0_def [symmetric])
  have t5: "trace w5 =
      [ReadAdditions, ReadTypings, FetchLastPatchNumber packageName,
       ClearOutputPath ?dir, WriteJson (joinPaths env ?dir ''package.json'') ?pj] @ evs @
      [WriteJson (joinPaths env ?dir ''index.json'') registry,
       WriteJson (joinPaths env ?dir ''README.md'') (JStr readme)]"
    using evs(1) by (simp add: w5_def w2)
  have m: "main env dry =
      (case generateAndPublishRegistry env dry w of
         (Inl e, w') \<Rightarrow> (Inl e, w')
       | (Inr u, w') \<Rightarrow>
           (writeLog env ''publish-registry.md'' (logged w'),
            w'\<lparr>trace := trace w' @ [WriteLog ''publish-registry.md'' (logged w')]\<rparr>))"
    unfolding main_unfold w_def using reads by simp
  have "\<exists>rest. trace (snd (main env dry)) = trace w5 @ [CreateClient, Publish ?dir ?pj dry] @ rest \<and>
      (\<forall>ev\<in>set rest. is_write_log ev)"
  proof (cases "clientPublish env ?dir ?pj dry")
    case (Inl e)
    then have "trace (snd (main env dry)) = trace w5 @ [CreateClient, Publish ?dir ?pj dry] @ []"
      using gp by (simp add: m)
    then show ?thesis by (intro exI [of _ "[]"]) simp
  next
    case (Inr u)
    then have "trace (snd (main env dry)) = trace w5 @ [CreateClient, Publish ?dir ?pj dry]
        @ [WriteLog ''publish-registry.md'' (logged w5)]"
      using gp by (simp add: m)
    then show ?thesis by (intro exI [of _ "[WriteLog ''publish-registry.md'' (logged w5)]"]) simp
  qed
  then obtain rest where "trace (snd (main env dry)) = trace w5 @ [CreateClient, Publish ?dir ?pj dry] @ rest"
    and rest: "\<forall>ev\<in>set rest. is_write_log ev" by blast
  then have "trace (snd (main env dry)) =
      [ReadAdditions, ReadTypings, FetchLastPatchNumber packageName,
       ClearOutputPath ?dir, WriteJson (joinPaths env ?dir ''package.json'') ?pj] @ evs @
      [WriteJson (joinPaths env ?dir ''index.json'') registry,
       WriteJson (joinPaths env ?dir ''README.md'') (JStr readme),
       CreateClient, Publish ?dir ?pj dry] @ rest"
    unfolding t5 by simp
  then show ?thesis using evs(2) rest by blast
qed

lemma main_starts_generation:
  assumes "readAdditions env = Inr added \<and> added \<noteq> [] \<and>
      readTypings env = Inr typings \<and>
      fetchLastPatchNumber env packageName = Inr patch"
  shows "take 4 (trace (snd (main env dry))) =
        [ReadAdditions, ReadTypings, FetchLastPatchNumber packageName,
         ClearOutputPath (registryOutputPath env)]"
proof -
  define w where "w = \<lparr>trace = [ReadAdditions],
           logged = [''=== Publishing types-registry ==='',
                     ''New packages have been added: '' @ stringify env added
                       @ '', so publishing a new registry'']\<rparr>"
  define w0 where "w0 = w\<lparr>trace := trace w @ [ReadTypings, FetchLastPatchNumber packageName]\<rparr>"
  obtain r w1 where g: "generate env typings (generatePackageJson (patch + 1)) w0 = (r, w1)"
    by (cases "generate env typings (generatePackageJson (patch + 1)) w0")
  have "\<exists>rest. trace w1 = trace w0 @ ClearOutputPath (registryOutputPath env) # rest"
  proof -
    obtain r' w3 where "generateRegistry env typings
        ((fold log (fst (clearOutputPath env (registryOutputPath env))) w0)
          \<lparr>trace := trace w0 @ [ClearOutputPath (registryOutputPath env),
             WriteJson (joinPaths env (registryOutputPath env) ''package.json'')
               (generatePackageJson (patch + 1))]\<rparr>) = (r', w3)"
      by (metis prod.collapse)
    moreover from this obtain evs where "trace w3 = trace w0 @ [ClearOutputPath (registryOutputPath env),
             WriteJson (joinPaths env (registryOutputPath env) ''package.json'')
               (generatePackageJson (patch + 1))] @ evs"
      using generateRegistry_events [of env typings
        "(fold log (fst (clearOutputPath env (registryOutputPath env))) w0)
          \<lparr>trace := trace w0 @ [ClearOutputPath (registryOutputPath env),
             WriteJson (joinPaths env (registryOutputPath env) ''package.json'')
               (generatePackageJson (patch + 1))]\<rparr>"] by auto
    ultimately show ?thesis
      using g unfolding generate_unfold Let_def by (auto split: sum.splits)
  qed
  then obtain rest where rest: "trace w1 = trace w0 @ ClearOutputPath (registryOutputPath env) # rest"
    by blast
  have "\<exists>more. trace (snd (generateAndPublishRegistry env dry w)) = trace w1 @ more"
    using g assms
    by (auto simp: generateAndPublishRegistry_unfold w0_def [symmetric] split: sum.splits)
  moreover have "main env dry =
      (case generateAndPublishRegistry env dry w of
         (Inl e, w') \<Rightarrow> (Inl e, w')
       | (Inr u, w') \<Rightarrow>
           (writeLog env ''publish-registry.md'' (logged w'),
            w'\<lparr>trace := trace w' @ [WriteLog ''publish-registry.md'' (logged w')]\<rparr>))"
    unfolding main_unfold w_def using assms by simp
  then have "\<exists>more. trace (snd (main env dry)) =
      trace (snd (generateAndPublishRegistry env dry w)) @ more"
    by (auto split: sum.splits prod.splits)
  ultimately show ?thesis using rest by (auto simp: w0_def w_def)
qed

text \<open>
  C7. In a run with \<open>dry = true\<close> every publish call has the dry-run flag set; up to the
  publish call the run makes exactly the calls of the run with \<open>dry = false\<close>, it makes a
  publish call exactly when that run does, and it does make it, with the flag set, whenever
  there are additions and the typings, the patch number, the generation and the client are
  obtained. The output files are generated as without the flag: whenever there are
  additions and the typings and the patch number are read, the output path is cleared next;
  and when clearing, the three writes, the registry lookups and the creation of the client
  fulfil, the run is the reading of the additions, the typings and the patch number, the
  clearing of the output path, the writing of \<open>package.json\<close>, the registry lookups, the
  writing of \<open>index.json\<close> and of \<open>README.md\<close>, the creation of the client and the publish
  call with the flag set, followed by the writing of the log at most.
\<close>

theorem dry_run_publishes_simulated:
  "(\<forall>dir packageJson d. Publish dir packageJson d \<in> set (trace (snd (main env True))) \<longrightarrow> d = True) \<and>
   takeWhile (\<lambda>ev. \<not> is_publish ev) (trace (snd (main env True))) =
     takeWhile (\<lambda>ev. \<not> is_publish ev) (trace (snd (main env False))) \<and>
   ((\<exists>ev\<in>set (trace (snd (main env True))). is_publish ev) \<longleftrightarrow>
    (\<exists>ev\<in>set (trace (snd (main env False))). is_publish ev)) \<and>
   (\<forall>added typings patch w1.
      readAdditions env = Inr added \<and> added \<noteq> [] \<and>
      readTypings env = Inr typings \<and>
      fetchLastPatchNumber env packageName = Inr patch \<and>
      generate env typings (generatePackageJson (patch + 1))
         \<lparr>trace = [ReadAdditions, ReadTypings, FetchLastPatchNumber packageName],
          logged = [''=== Publishing types-registry ==='',
                    ''New packages have been added: '' @ stringify env added
                      @ '', so publishing a new registry'']\<rparr> = (Inr (), w1) \<and>
      createClient env = Inr () \<longrightarrow>
      Publish (registryOutputPath env) (generatePackageJson (patch + 1)) True
        \<in> set (trace (snd (main env True)))) \<and>
   (\<forall>added typings patch registry.
      readAdditions env = Inr added \<and> added \<noteq> [] \<and>
      readTypings env = Inr typings \<and>
      fetchLastPatchNumber env packageName = Inr patch \<and>
      snd (clearOutputPath env (registryOutputPath env)) = Inr () \<and>
      writeJson env (joinPaths env (registryOutputPath env) ''package.json'')
        (generatePackageJson (patch + 1)) = Inr () \<and>
      fst (generateRegistry env typings
          \<lparr>trace = [ReadAdditions, ReadTypings, FetchLastPatchNumber packageName,
                    ClearOutputPath (registryOutputPath env),
                    WriteJson (joinPaths env (registryOutputPath env) ''package.json'')
                      (generatePackageJson (patch + 1))],
           logged = [''=== Publishing types-registry ==='',
                     ''New packages have been added: '' @ stringify env added
                       @ '', so publishing a new registry'']
                    @ fst (clearOutputPath env (registryOutputPath env))\<rparr>) = Inr registry \<and>
      writeJson env (joinPaths env (registryOutputPath env) ''index.json'') registry = Inr () \<and>
      writeJson env (joinPaths env (registryOutputPath env) ''README.md'') (JStr readme) = Inr () \<and>
      createClient env = Inr () \<longrightarrow>
      (\<exists>evs rest.
         trace (snd (main env True)) =
           [ReadAdditions, ReadTypings, FetchLastPatchNumber packageName,
            ClearOutputPath (registryOutputPath env),
            WriteJson (joinPaths env (registryOutputPath env) ''package.json'')
              (generatePackageJson (patch + 1))] @ evs @
           [WriteJson (joinPaths env (registryOutputPath env) ''index.json'') registry,
            WriteJson (joinPaths env (registryOutputPath env) ''README.md'') (JStr readme),
            CreateClient,
            Publish (registryOutputPath env) (generatePackageJson (patch + 1)) True] @ rest \<and>
         (\<forall>ev\<in>set evs. is_fetch ev) \<and> (\<forall>ev\<in>set rest. is_write_log ev))) \<and>
   (\<forall>added typings patch.
      readAdditions env = Inr added \<and> added \<noteq> [] \<and>
      readTypings env = Inr typings \<and>
      fetchLastPatchNumber env packageName = Inr patch \<longrightarrow>
      take 4 (trace (snd (main env True))) =
        [ReadAdditions, ReadTypings, FetchLastPatchNumber packageName,
         ClearOutputPath (registryOutputPath env)])"
  using dry_run_calls [of env] main_generates [of env _ _ _ _ True]
    main_starts_generation [of env _ _ _ True]
  by (intro conjI allI impI) (blast+)

theorem dry_run_publishes_simulated_witness:
  "Publish ''output/types-registry'' (generatePackageJson (41 + 1)) True
     \<in> set (trace (snd (main example_env True))) \<and>
   takeWhile (\<lambda>ev. \<not> is_publish ev) (trace (snd (main example_env True))) =
     takeWhile (\<lambda>ev. \<not> is_publish ev) (trace (snd (main example_env False))) \<and>
   take 4 (trace (snd (main example_env True))) =
     [ReadAdditions, ReadTypings, FetchLastPatchNumber ''types-registry'',
      ClearOutputPath ''output/types-registry''] \<and>
   (\<exists>evs rest.
      trace (snd (main example_env True)) =
        [ReadAdditions, ReadTypings, FetchLastPatchNumber ''types-registry'',
         ClearOutputPath ''output/types-registry'',
         WriteJson ''output/types-registry/package.json'' (generatePackageJson (41 + 1))] @ evs @
        [WriteJson ''output/types-registry/index.json''
           (JObj [(''entries'', JObj
              [(''a'', JObj [(''latest'', JStr ''1.0.0''), (''ts2.8'', JStr ''0.9.0'')]),
               (''b'', JObj [(''latest'', JStr ''2.0.0'')])])]),
         WriteJson ''output/types-registry/README.md'' (JStr readme),
         CreateClient,
         Publish ''output/types-registry'' (generatePackageJson (41 + 1)) True] @ rest)"
proof -
  let ?registry = "JObj [(''entries'', JObj
              [(''a'', JObj [(''latest'', JStr ''1.0.0''), (''ts2.8'', JStr ''0.9.0'')]),
               (''b'', JObj [(''latest'', JStr ''2.0.0'')])])]"
  obtain w1 where g: "generate example_env example_typings (generatePackageJson (41 + 1))
         \<lparr>trace = [ReadAdditions, ReadTypings, FetchLastPatchNumber packageName],
          logged = [''=== Publishing types-registry ==='',
                    ''New packages have been added: '' @ stringify example_env [''b'']
                      @ '', so publishing a new registry'']\<rparr> = (Inr (), w1)"
    using example_generates by (metis prod.collapse)
  have h: "readAdditions example_env = Inr [''b'']" "[''b''] \<noteq> ([] :: string list)"
    "readTypings example_env = Inr example_typings"
    "fetchLastPatchNumber example_env packageName = Inr 41"
    "createClient example_env = Inr ()"
    by (simp_all add: example_env_def)
  have paths: "registryOutputPath example_env = ''output/types-registry''"
    "joinPaths example_env ''output/types-registry'' ''package.json'' = ''output/types-registry/package.json''"
    "joinPaths example_env ''output/types-registry'' ''index.json'' = ''output/types-registry/index.json''"
    "joinPaths example_env ''output/types-registry'' ''README.md'' = ''output/types-registry/README.md''"
    "packageName = ''types-registry''"
    by (simp_all add: example_env_def registryOutputPath_def packageName_def)
  have ok: "snd (clearOutputPath example_env ''output/types-registry'') = Inr ()"
    "\<And>path content. writeJson example_env path content = Inr ()"
    by (simp_all add: example_env_def)
  have reg: "fst (generateRegistry example_env example_typings
          \<lparr>trace = [ReadAdditions, ReadTypings, FetchLastPatchNumber ''types-registry'',
                    ClearOutputPath ''output/types-registry'',
                    WriteJson ''output/types-registry/package.json'' (generatePackageJson (41 + 1))],
           logged = [''=== Publishing types-registry ==='',
                     ''New packages have been added: '' @ stringify example_env [''b'']
                       @ '', so publishing a new registry'']
                    @ fst (clearOutputPath example_env ''output/types-registry'')\<rparr>) = Inr ?registry"
    by code_simp
  note main_dry = dry_run_publishes_simulated [of example_env, unfolded paths]
  have 1: "Publish ''output/types-registry'' (generatePackageJson (41 + 1)) True
     \<in> set (trace (snd (main example_env True)))"
    using main_dry g h unfolding paths by (metis (no_types, lifting))
  have 2: "takeWhile (\<lambda>ev. \<not> is_publish ev) (trace (snd (main example_env True))) =
     takeWhile (\<lambda>ev. \<not> is_publish ev) (trace (snd (main example_env False)))"
    using main_dry by blast
  have 3: "take 4 (trace (snd (main example_env True))) =
     [ReadAdditions, ReadTypings, FetchLastPatchNumber ''types-registry'',
      ClearOutputPath ''output/types-registry'']"
    using main_dry h unfolding paths by (metis (no_types, lifting))
  have 4: "\<exists>evs rest.
      trace (snd (main example_env True)) =
        [ReadAdditions, ReadTypings, FetchLastPatchNumber ''types-registry'',
         ClearOutputPath ''output/types-registry'',
         WriteJson ''output/types-registry/package.json'' (generatePackageJson (41 + 1))] @ evs @
        [WriteJson ''output/types-registry/index.json'' ?registry,
         WriteJson ''output/types-registry/README.md'' (JStr readme),
         CreateClient,
         Publish ''output/types-registry'' (generatePackageJson (41 + 1)) True] @ rest"
  proof -
    have "\<exists>evs rest.
      trace (snd (main example_env True)) =
        [ReadAdditions, ReadTypings, FetchLastPatchNumber ''types-registry'',
         ClearOutputPath ''output/types-registry'',
         WriteJson ''output/types-registry/package.json'' (generatePackageJson (41 + 1))] @ evs @
        [WriteJson ''output/types-registry/index.json'' ?registry,
         WriteJson ''output/types-registry/README.md'' (JStr readme),
         CreateClient,
         Publish ''output/types-registry'' (generatePackageJson (41 + 1)) True] @ rest \<and>
      (\<forall>ev\<in>set evs. is_fetch ev) \<and> (\<forall>ev\<in>set rest. is_write_log ev)"
      using main_dry h ok reg unfolding paths by (metis (no_types, lifting))
    then show ?thesis by blast
  qed
  show ?thesis using 1 2 3 4 by blast
qed

end
